theory Spec2Isabelle
  imports Main "HOL-Library.Word"
begin

unbundle bit_operations_syntax

section \<open>CP/M disk image tool (cpm\_disk.py): data model\<close>

text \<open>
  The image is a Python \<^verbatim>\<open>bytearray\<close>: a list of bytes. A byte is an 8-bit word, so
  that no element can leave the range 0..255; Python's unbounded integers (lengths,
  block numbers, record counts) are \<open>nat\<close> where they cannot be negative and \<open>int\<close>
  where the source subtracts.
\<close>

type_synonym byte = "8 word"
type_synonym image = "byte list"

subsection \<open>Disk geometry constants\<close>

definition DISK_SIZE :: nat where "DISK_SIZE = 256 * 1024"
definition SECTOR_SIZE :: nat where "SECTOR_SIZE = 128"
definition SECTORS_PER_TRACK :: nat where "SECTORS_PER_TRACK = 26"
definition TRACKS :: nat where "TRACKS = 77"
definition RESERVED_TRACKS :: nat where "RESERVED_TRACKS = 2"
definition BLOCK_SIZE :: nat where "BLOCK_SIZE = 1024"
definition DIR_ENTRIES :: nat where "DIR_ENTRIES = 64"
definition ENTRY_SIZE :: nat where "ENTRY_SIZE = 32"

definition DIR_OFFSET :: nat where
  "DIR_OFFSET = RESERVED_TRACKS * SECTORS_PER_TRACK * SECTOR_SIZE"
definition DATA_OFFSET :: nat where
  "DATA_OFFSET = DIR_OFFSET + (DIR_ENTRIES * ENTRY_SIZE)"
definition TOTAL_BLOCKS :: nat where
  "TOTAL_BLOCKS = (DISK_SIZE - DATA_OFFSET) div BLOCK_SIZE"

definition EMPTY_ENTRY :: byte where "EMPTY_ENTRY = 0xE5"

lemmas geometry_defs =
  DISK_SIZE_def SECTOR_SIZE_def SECTORS_PER_TRACK_def TRACKS_def RESERVED_TRACKS_def
  BLOCK_SIZE_def DIR_ENTRIES_def ENTRY_SIZE_def DIR_OFFSET_def DATA_OFFSET_def
  TOTAL_BLOCKS_def

subsection \<open>Python sequence operations\<close>

text \<open>
  What the source can raise or return as a failure. \<open>IndexError\<close> and \<open>ValueError\<close> are
  Python's exceptions (an index out of range, a value outside 0..255 stored into a
  bytearray); \<open>InsufficientSpace\<close> is the \<^verbatim>\<open>return False\<close> after
  "Error: Not enough space", \<open>DirectoryFull\<close> the one after
  "Error: No free directory entries", \<open>NotFound\<close> the one after "File not found".
\<close>

datatype error = IndexError | ValueError | InsufficientSpace | DirectoryFull | NotFound

text \<open>\<^verbatim>\<open>xs[i]\<close> for a non-negative index: raises when out of range.\<close>

definition getitem :: "'a list \<Rightarrow> nat \<Rightarrow> error + 'a" where
  "getitem xs i = (if i < length xs then Inr (xs ! i) else Inl IndexError)"

text \<open>\<^verbatim>\<open>xs[a:b]\<close> for non-negative bounds: clamps, never raises.\<close>

definition slice :: "'a list \<Rightarrow> nat \<Rightarrow> nat \<Rightarrow> 'a list" where
  "slice xs a b = take (b - a) (drop a xs)"

text \<open>\<^verbatim>\<open>xs[a:b] = ys\<close> on a bytearray, for non-negative bounds: the slice is replaced
  by \<open>ys\<close> whatever its length (the bytearray grows or shrinks); bounds are clamped.\<close>

definition slice_assign :: "'a list \<Rightarrow> nat \<Rightarrow> nat \<Rightarrow> 'a list \<Rightarrow> 'a list" where
  "slice_assign xs a b ys = take a xs @ ys @ drop (max a b) xs"

text \<open>\<^verbatim>\<open>xs[i] = v\<close> on a bytearray, for a non-negative index and an integer value.\<close>

definition setitem :: "byte list \<Rightarrow> nat \<Rightarrow> int \<Rightarrow> error + byte list" where
  "setitem xs i v =
     (if \<not> i < length xs then Inl IndexError
      else if v < 0 \<or> 256 \<le> v then Inl ValueError
      else Inr (xs[i := word_of_int v]))"

text \<open>Sequencing of steps that may raise: the first exception ends the computation.\<close>

definition ebind :: "error + 'a \<Rightarrow> ('a \<Rightarrow> error + 'b) \<Rightarrow> error + 'b" where
  "ebind m f = (case m of Inl e \<Rightarrow> Inl e | Inr x \<Rightarrow> f x)"

subsection \<open>File names\<close>

text \<open>
  A Python \<^verbatim>\<open>str\<close> is modelled by \<open>string\<close> and stands for an ASCII string (every
  character below 128): there \<^verbatim>\<open>upper()\<close> only maps a..z to A..Z and \<^verbatim>\<open>encode()\<close>
  yields one byte per character. File names with other characters are outside the model.
\<close>

definition is_ascii :: "string \<Rightarrow> bool" where
  "is_ascii s = list_all (\<lambda>c. (of_char c :: nat) < 128) s"

definition upper_char :: "char \<Rightarrow> char" where
  "upper_char c =
     (let n = (of_char c :: nat) in if 97 \<le> n \<and> n \<le> 122 then char_of (n - 32) else c)"

definition upper :: "string \<Rightarrow> string" where
  "upper s = map upper_char s"

text \<open>\<^verbatim>\<open>os.path.basename\<close> (POSIX): what follows the last slash.\<close>

definition basename :: "string \<Rightarrow> string" where
  "basename p = rev (takeWhile (\<lambda>c. c \<noteq> CHR ''/'') (rev p))"

text \<open>\<^verbatim>\<open>if '.' in s: name, ext = s.rsplit('.', 1) else: name, ext = s, ''\<close>\<close>

definition split_ext :: "string \<Rightarrow> string \<times> string" where
  "split_ext s =
     (if CHR ''.'' \<in> set s
      then (rev (tl (dropWhile (\<lambda>c. c \<noteq> CHR ''.'') (rev s))),
            rev (takeWhile (\<lambda>c. c \<noteq> CHR ''.'') (rev s)))
      else (s, []))"

definition ljust :: "string \<Rightarrow> nat \<Rightarrow> string" where
  "ljust s n = s @ replicate (n - length s) CHR '' ''"

text \<open>\<^verbatim>\<open>name[:8].ljust(8), ext[:3].ljust(3)\<close> of the split name.\<close>

definition pad_83 :: "string \<Rightarrow> string \<times> string" where
  "pad_83 s = (case split_ext s of (name, ext) \<Rightarrow> (ljust (take 8 name) 8, ljust (take 3 ext) 3))"

definition encode :: "string \<Rightarrow> byte list" where
  "encode s = map of_char s"

text \<open>Code points of a string, and \<^verbatim>\<open>bytes.decode('ascii', errors='replace')\<close>: a byte
  above 127 decodes to U+FFFD.\<close>

definition codepoints :: "string \<Rightarrow> nat list" where
  "codepoints s = map of_char s"

definition decode_ascii :: "byte list \<Rightarrow> nat list" where
  "decode_ascii bs = map (\<lambda>b. if unat b < 128 then unat b else 0xFFFD) bs"

section \<open>create\_disk\<close>

text \<open>The offsets written are constants inside the buffer, so the item assignment
  never raises.\<close>

definition create_disk :: image where
  "create_disk =
     fold (\<lambda>i disk. disk[DIR_OFFSET + (i * ENTRY_SIZE) := EMPTY_ENTRY])
       [0..<DIR_ENTRIES] (replicate DISK_SIZE 0)"

section \<open>Allocator\<close>

text \<open>\<^verbatim>\<open>for b in range(16): block = entry[16 + b]; if block > 0: used.add(block)\<close>\<close>

fun scan_entry_blocks :: "byte list \<Rightarrow> nat list \<Rightarrow> nat set \<Rightarrow> error + nat set" where
  "scan_entry_blocks entry [] used = Inr used"
| "scan_entry_blocks entry (b # bs) used =
     (case getitem entry (16 + b) of
        Inl e \<Rightarrow> Inl e
      | Inr block \<Rightarrow>
          scan_entry_blocks entry bs (if block > 0 then insert (unat block) used else used))"

text \<open>The scan of the directory for used blocks (the first loop of find\_free\_blocks).\<close>

fun scan_used :: "image \<Rightarrow> nat list \<Rightarrow> nat set \<Rightarrow> error + nat set" where
  "scan_used disk [] used = Inr used"
| "scan_used disk (i # rest) used =
     (let offset = DIR_OFFSET + (i * ENTRY_SIZE);
          entry = slice disk offset (offset + ENTRY_SIZE)
      in case getitem entry 0 of
           Inl e \<Rightarrow> Inl e
         | Inr u \<Rightarrow>
             if u \<noteq> EMPTY_ENTRY \<and> u \<le> 15
             then (case scan_entry_blocks entry [0..<16] used of
                     Inl e \<Rightarrow> Inl e
                   | Inr used' \<Rightarrow> scan_used disk rest used')
             else scan_used disk rest used)"

text \<open>The second loop: candidates in ascending order; the \<^verbatim>\<open>break\<close> is tested after
  the append.\<close>

fun scan_free :: "nat set \<Rightarrow> nat \<Rightarrow> nat list \<Rightarrow> nat list \<Rightarrow> nat list" where
  "scan_free used count [] free = free"
| "scan_free used count (b # bs) free =
     (if b \<notin> used
      then (let free' = free @ [b]
            in if length free' \<ge> count then free' else scan_free used count bs free')
      else scan_free used count bs free)"

definition find_free_blocks :: "image \<Rightarrow> nat \<Rightarrow> error + nat list" where
  "find_free_blocks disk count =
     (case scan_used disk [0..<DIR_ENTRIES] {} of
        Inl e \<Rightarrow> Inl e
      | Inr used \<Rightarrow> Inr (scan_free used count [2..<TOTAL_BLOCKS] []))"

fun scan_free_dir :: "image \<Rightarrow> nat list \<Rightarrow> error + nat option" where
  "scan_free_dir disk [] = Inr None"
| "scan_free_dir disk (i # rest) =
     (case getitem disk (DIR_OFFSET + (i * ENTRY_SIZE)) of
        Inl e \<Rightarrow> Inl e
      | Inr u \<Rightarrow> if u = EMPTY_ENTRY then Inr (Some i) else scan_free_dir disk rest)"

definition find_free_dir_entry :: "image \<Rightarrow> error + nat option" where
  "find_free_dir_entry disk = scan_free_dir disk [0..<DIR_ENTRIES]"

section \<open>add\_file\<close>

text \<open>\<^verbatim>\<open>DATA_OFFSET + (block - 2) * BLOCK_SIZE\<close> on Python integers; the value is never
  negative for a block number \<open>\<ge> 0\<close>.\<close>

definition block_offset :: "nat \<Rightarrow> nat" where
  "block_offset block = nat (int DATA_OFFSET + (int block - 2) * int BLOCK_SIZE)"

text \<open>The chunk of the data written to the \<open>i\<close>-th allocated block, padded with 0x1A.\<close>

definition chunk_of :: "byte list \<Rightarrow> nat \<Rightarrow> byte list" where
  "chunk_of data i =
     (let start = i * BLOCK_SIZE;
          stop = min (start + BLOCK_SIZE) (length data);
          chunk = slice data start stop
      in if length chunk < BLOCK_SIZE
         then chunk @ replicate (BLOCK_SIZE - length chunk) 0x1A
         else chunk)"

text \<open>\<^verbatim>\<open>for i, block in enumerate(free_blocks): ...\<close>\<close>

fun write_blocks :: "byte list \<Rightarrow> (nat \<times> nat) list \<Rightarrow> image \<Rightarrow> image" where
  "write_blocks data [] disk = disk"
| "write_blocks data ((i, block) # rest) disk =
     write_blocks data rest
       (slice_assign disk (block_offset block) (block_offset block + BLOCK_SIZE)
          (chunk_of data i))"

text \<open>\<^verbatim>\<open>for j, blk in enumerate(extent_blocks): entry[16 + j] = blk\<close>\<close>

fun write_entry_blocks :: "byte list \<Rightarrow> (nat \<times> nat) list \<Rightarrow> error + byte list" where
  "write_entry_blocks entry [] = Inr entry"
| "write_entry_blocks entry ((j, blk) # rest) =
     (case setitem entry (16 + j) (int blk) of
        Inl e \<Rightarrow> Inl e
      | Inr entry' \<Rightarrow> write_entry_blocks entry' rest)"

text \<open>The two extent bytes written by add\_file and the number read back by
  extract\_file and list\_disk.\<close>

definition extent_low :: "nat \<Rightarrow> nat" where
  "extent_low extent = extent AND 0x1F"

definition extent_high :: "nat \<Rightarrow> nat" where
  "extent_high extent = drop_bit 5 extent AND 0x3F"

definition extent_number :: "byte \<Rightarrow> byte \<Rightarrow> nat" where
  "extent_number low high = unat low + push_bit 5 (unat high)"

text \<open>The body of the directory loop that builds one 32-byte entry.\<close>

definition build_entry ::
  "byte list \<Rightarrow> byte list \<Rightarrow> nat \<Rightarrow> nat \<Rightarrow> nat list \<Rightarrow> error + byte list" where
  "build_entry name ext records extent extent_blocks =
     ebind (setitem (replicate ENTRY_SIZE 0) 0 0) (\<lambda>entry.
     ebind (Inr (slice_assign entry 1 9 name)) (\<lambda>entry.
     ebind (Inr (slice_assign entry 9 12 ext)) (\<lambda>entry.
     ebind (setitem entry 12 (int (extent_low extent))) (\<lambda>entry.
     ebind (setitem entry 13 0) (\<lambda>entry.
     ebind (setitem entry 14 (int (extent_high extent))) (\<lambda>entry.
     ebind (setitem entry 15 (min (int records - (int extent * 128)) 128)) (\<lambda>entry.
     write_entry_blocks entry (enumerate 0 extent_blocks))))))))"

text \<open>The \<^verbatim>\<open>while block_idx < len(free_blocks)\<close> loop. It returns the error, if any,
  with the buffer as it is at that point.\<close>

function write_extents ::
  "byte list \<Rightarrow> byte list \<Rightarrow> nat \<Rightarrow> nat list \<Rightarrow> nat \<Rightarrow> nat \<Rightarrow> image \<Rightarrow> error option \<times> image"
where
  "write_extents name ext records free_blocks extent block_idx disk =
     (if block_idx < length free_blocks then
        (case find_free_dir_entry disk of
           Inl e \<Rightarrow> (Some e, disk)
         | Inr None \<Rightarrow> (Some DirectoryFull, disk)
         | Inr (Some dir_idx) \<Rightarrow>
             (let offset = DIR_OFFSET + (dir_idx * ENTRY_SIZE);
                  extent_blocks = slice free_blocks block_idx (block_idx + 16)
              in case build_entry name ext records extent extent_blocks of
                   Inl e \<Rightarrow> (Some e, disk)
                 | Inr entry \<Rightarrow>
                     write_extents name ext records free_blocks (extent + 1) (block_idx + 16)
                       (slice_assign disk offset (offset + ENTRY_SIZE) entry)))
      else (None, disk))"
  by pat_completeness auto
termination
  by (relation "measure (\<lambda>(name, ext, records, free_blocks, extent, block_idx, disk).
        length free_blocks - block_idx)") auto

text \<open>
  What one call of add\_file leaves behind: \<open>failure\<close> is \<open>None\<close> when it returns True,
  \<open>buffer\<close> is the in-memory bytearray \<^verbatim>\<open>disk\<close> when the call ends, \<open>stored\<close> the
  content of the image file afterwards (written only by the last statement).
\<close>

record add_outcome =
  failure :: "error option"
  buffer :: image
  stored :: image

text \<open>\<^verbatim>\<open>records = (len(data) + SECTOR_SIZE - 1) // SECTOR_SIZE\<close> and
  \<^verbatim>\<open>blocks_needed = (len(data) + BLOCK_SIZE - 1) // BLOCK_SIZE\<close>\<close>

definition records_of :: "byte list \<Rightarrow> nat" where
  "records_of data = (length data + SECTOR_SIZE - 1) div SECTOR_SIZE"

definition blocks_needed :: "byte list \<Rightarrow> nat" where
  "blocks_needed data = (length data + BLOCK_SIZE - 1) div BLOCK_SIZE"

definition add_file :: "image \<Rightarrow> string \<Rightarrow> byte list \<Rightarrow> add_outcome" where
  "add_file disk_file filename data =
     (let disk = disk_file;
          (name, ext) = pad_83 (upper (basename filename));
          records = records_of data
      in case find_free_blocks disk (blocks_needed data) of
           Inl e \<Rightarrow> \<lparr>failure = Some e, buffer = disk, stored = disk_file\<rparr>
         | Inr free_blocks \<Rightarrow>
             if length free_blocks < blocks_needed data
             then \<lparr>failure = Some InsufficientSpace, buffer = disk, stored = disk_file\<rparr>
             else (case write_extents (encode name) (encode ext) records free_blocks 0 0
                          (write_blocks data (enumerate 0 free_blocks) disk) of
                     (Some e, disk') \<Rightarrow> \<lparr>failure = Some e, buffer = disk', stored = disk_file\<rparr>
                   | (None, disk') \<Rightarrow> \<lparr>failure = None, buffer = disk', stored = disk'\<rparr>))"

section \<open>extract\_file\<close>

text \<open>\<^verbatim>\<open>[entry[16 + b] for b in range(16) if entry[16 + b] > 0]\<close>\<close>

fun read_entry_blocks :: "byte list \<Rightarrow> nat list \<Rightarrow> error + nat list" where
  "read_entry_blocks entry [] = Inr []"
| "read_entry_blocks entry (b # bs) =
     (case getitem entry (16 + b) of
        Inl e \<Rightarrow> Inl e
      | Inr block \<Rightarrow>
          (case read_entry_blocks entry bs of
             Inl e \<Rightarrow> Inl e
           | Inr blocks \<Rightarrow> Inr (if block > 0 then unat block # blocks else blocks)))"

definition decode_extent :: "byte list \<Rightarrow> error + (nat \<times> nat \<times> nat list)" where
  "decode_extent entry =
     ebind (getitem entry 12) (\<lambda>low.
     ebind (getitem entry 14) (\<lambda>high.
     ebind (getitem entry 15) (\<lambda>records.
     ebind (read_entry_blocks entry [0..<16]) (\<lambda>blocks.
     Inr (extent_number low high, unat records, blocks)))))"

text \<open>The loop over the directory that collects the extents of the target.\<close>

fun find_extents ::
  "image \<Rightarrow> nat list \<Rightarrow> nat list \<Rightarrow> nat list \<Rightarrow> (nat \<times> nat \<times> nat list) list
     \<Rightarrow> error + (nat \<times> nat \<times> nat list) list" where
  "find_extents disk tname text [] extents = Inr extents"
| "find_extents disk tname text (i # rest) extents =
     (let offset = DIR_OFFSET + (i * ENTRY_SIZE);
          entry = slice disk offset (offset + ENTRY_SIZE)
      in case getitem entry 0 of
           Inl e \<Rightarrow> Inl e
         | Inr u \<Rightarrow>
             if u = EMPTY_ENTRY \<or> u > 15 then find_extents disk tname text rest extents
             else if decode_ascii (slice entry 1 9) = tname
                     \<and> decode_ascii (slice entry 9 12) = text
             then (case decode_extent entry of
                     Inl e \<Rightarrow> Inl e
                   | Inr x \<Rightarrow> find_extents disk tname text rest (extents @ [x]))
             else find_extents disk tname text rest extents)"

text \<open>\<^verbatim>\<open>for extent_num, records, blocks in extents: for block in blocks: data.extend(...)\<close>\<close>

definition read_blocks :: "image \<Rightarrow> (nat \<times> nat \<times> nat list) list \<Rightarrow> byte list" where
  "read_blocks disk extents =
     fold (\<lambda>(extent_num, records, blocks) data.
             fold (\<lambda>block data.
                     data @ slice disk (block_offset block) (block_offset block + BLOCK_SIZE))
               blocks data)
       extents []"

text \<open>\<^verbatim>\<open>while data and data[-1] == 0x1A: data = data[:-1]\<close>\<close>

function strip_eof :: "byte list \<Rightarrow> byte list" where
  "strip_eof data =
     (if data \<noteq> [] \<and> last data = 0x1A then strip_eof (butlast data) else data)"
  by pat_completeness auto
termination
  by (relation "measure length") auto

definition extract_file :: "image \<Rightarrow> string \<Rightarrow> error + byte list" where
  "extract_file disk filename =
     (let (tname, text) = pad_83 (upper filename)
      in case find_extents disk (codepoints tname) (codepoints text) [0..<DIR_ENTRIES] [] of
           Inl e \<Rightarrow> Inl e
         | Inr found \<Rightarrow>
             if found = [] then Inl NotFound
             else (let extents = sort_key fst found;
                       data = read_blocks disk extents;
                       last_extent = last extents;
                       total_records = (length extents - 1) * 128 + fst (snd last_extent);
                       data = take (total_records * SECTOR_SIZE) data
                   in Inr (strip_eof data)))"

section \<open>Sequences of calls\<close>


section \<open>Views of an image\<close>

text \<open>
  Names for the parts of an image the properties speak about: the status byte and the
  32 bytes of directory slot \<open>i\<close>, the 1024 bytes of allocation block \<open>b\<close>, the block
  numbers an entry references (its non-zero block bytes, in slot order), the list of all
  block numbers referenced by occupied entries (with repetitions), the free directory
  slots and the free blocks in ascending order.
\<close>

definition slot_offset :: "nat \<Rightarrow> nat" where
  "slot_offset i = DIR_OFFSET + (i * ENTRY_SIZE)"

definition status :: "image \<Rightarrow> nat \<Rightarrow> byte" where
  "status disk i = disk ! slot_offset i"

definition entry_at :: "image \<Rightarrow> nat \<Rightarrow> byte list" where
  "entry_at disk i = slice disk (slot_offset i) (slot_offset i + ENTRY_SIZE)"

definition block_at :: "image \<Rightarrow> nat \<Rightarrow> byte list" where
  "block_at disk b = slice disk (block_offset b) (block_offset b + BLOCK_SIZE)"

definition occupied :: "byte \<Rightarrow> bool" where
  "occupied u = (u \<noteq> EMPTY_ENTRY \<and> u \<le> 15)"

definition blocks_of :: "byte list \<Rightarrow> nat list" where
  "blocks_of entry = map unat (filter (\<lambda>v. v > 0) (slice entry 16 32))"

definition slot_blocks :: "image \<Rightarrow> nat \<Rightarrow> nat list" where
  "slot_blocks disk i = (if occupied (status disk i) then blocks_of (entry_at disk i) else [])"

definition used_blocks :: "image \<Rightarrow> nat list" where
  "used_blocks disk = concat (map (slot_blocks disk) [0..<DIR_ENTRIES])"

definition free_slots :: "image \<Rightarrow> nat list" where
  "free_slots disk = filter (\<lambda>i. status disk i = EMPTY_ENTRY) [0..<DIR_ENTRIES]"

definition free_list :: "image \<Rightarrow> nat list" where
  "free_list disk = filter (\<lambda>b. b \<notin> set (used_blocks disk)) [2..<TOTAL_BLOCKS]"


text \<open>The image after \<open>n\<close> one-byte files have been added to the blank image.\<close>

definition fill_directory :: "nat \<Rightarrow> image" where
  "fill_directory n = ((\<lambda>disk. stored (add_file disk ''A.TXT'' [0x41])) ^^ n) create_disk"


text \<open>The bytes of the image covered by block \<open>b\<close> and by directory slot \<open>i\<close>.\<close>

definition in_block :: "nat \<Rightarrow> nat \<Rightarrow> bool" where
  "in_block b p = (block_offset b \<le> p \<and> p < block_offset b + BLOCK_SIZE)"

definition in_slot :: "nat \<Rightarrow> nat \<Rightarrow> bool" where
  "in_slot i p = (slot_offset i \<le> p \<and> p < slot_offset i + ENTRY_SIZE)"

text \<open>A sequence of writes of byte strings at offsets, each replacing as many bytes as
  it brings: what the two loops of add\_file amount to.\<close>

fun put_regions :: "image \<Rightarrow> (nat \<times> byte list) list \<Rightarrow> image" where
  "put_regions disk [] = disk"
| "put_regions disk ((off, ys) # rest) =
     put_regions (slice_assign disk off (off + length ys) ys) rest"

fun disjoint_regions :: "(nat \<times> byte list) list \<Rightarrow> bool" where
  "disjoint_regions [] = True"
| "disjoint_regions ((off, ys) # rest) =
     (list_all (\<lambda>(off', ys'). off + length ys \<le> off' \<or> off' + length ys' \<le> off) rest
      \<and> disjoint_regions rest)"

definition in_range :: "(nat \<times> byte list) list \<Rightarrow> nat \<Rightarrow> bool" where
  "in_range regs n = list_all (\<lambda>(off, ys). off + length ys \<le> n) regs"

text \<open>The entry that build\_entry produces when nothing raises.\<close>

definition mk_entry :: "byte list \<Rightarrow> byte list \<Rightarrow> nat \<Rightarrow> nat \<Rightarrow> nat list \<Rightarrow> byte list" where
  "mk_entry name ext records extent blks =
     [0] @ name @ ext
       @ [word_of_nat (extent_low extent), 0, word_of_nat (extent_high extent),
          word_of_int (min (int records - (int extent * 128)) 128)]
       @ map word_of_nat blks @ replicate (16 - length blks) 0"

text \<open>The groups of at most 16 blocks the directory loop goes through, with their
  extent numbers.\<close>

function groups :: "nat list \<Rightarrow> nat \<Rightarrow> nat \<Rightarrow> (nat \<times> nat list) list" where
  "groups free_blocks extent block_idx =
     (if block_idx < length free_blocks
      then (extent, slice free_blocks block_idx (block_idx + 16))
             # groups free_blocks (extent + 1) (block_idx + 16)
      else [])"
  by pat_completeness auto
termination
  by (relation "measure (\<lambda>(free_blocks, extent, block_idx). length free_blocks - block_idx)") auto

text \<open>The writes of the two loops of add\_file as regions: the chunks at their blocks,
  the entries of the groups at the directory slots they get.\<close>

definition block_regions :: "byte list \<Rightarrow> (nat \<times> nat) list \<Rightarrow> (nat \<times> byte list) list" where
  "block_regions data ibs = map (\<lambda>(i, block). (block_offset block, chunk_of data i)) ibs"

definition entry_regions ::
  "byte list \<Rightarrow> byte list \<Rightarrow> nat \<Rightarrow> nat list \<Rightarrow> (nat \<times> nat list) list
     \<Rightarrow> (nat \<times> byte list) list" where
  "entry_regions name ext records slots gs =
     map (\<lambda>(s, (e, blks)). (slot_offset s, mk_entry name ext records e blks)) (zip slots gs)"

text \<open>The blocks a call of add\_file allocates (what find\_free\_blocks returns on an
  image of full length: at least one block when one is free, whatever the count), the
  directory slots it claims, and the buffer it builds.\<close>

definition allocated :: "image \<Rightarrow> byte list \<Rightarrow> nat list" where
  "allocated disk data = take (max (blocks_needed data) 1) (free_list disk)"

definition claimed :: "image \<Rightarrow> byte list \<Rightarrow> nat list" where
  "claimed disk data = take (length (groups (allocated disk data) 0 0)) (free_slots disk)"

definition add_buffer :: "image \<Rightarrow> string \<Rightarrow> byte list \<Rightarrow> image" where
  "add_buffer disk filename data =
     (case pad_83 (upper (basename filename)) of
        (name, ext) \<Rightarrow>
          put_regions
            (put_regions disk (block_regions data (enumerate 0 (allocated disk data))))
            (entry_regions (encode name) (encode ext) (records_of data) (free_slots disk)
               (groups (allocated disk data) 0 0)))"

text \<open>What extract\_file decodes from a matching entry, and when an entry matches.\<close>

definition extent_of :: "byte list \<Rightarrow> nat \<times> nat \<times> nat list" where
  "extent_of entry = (extent_number (entry ! 12) (entry ! 14), unat (entry ! 15), blocks_of entry)"

definition matches :: "image \<Rightarrow> nat list \<Rightarrow> nat list \<Rightarrow> nat \<Rightarrow> bool" where
  "matches disk tname text i =
     (occupied (status disk i)
      \<and> decode_ascii (slice (entry_at disk i) 1 9) = tname
      \<and> decode_ascii (slice (entry_at disk i) 9 12) = text)"

text \<open>Trailing 0x1A bytes removed, said without the loop.\<close>

definition without_trailing_eof :: "byte list \<Rightarrow> byte list" where
  "without_trailing_eof d = rev (dropWhile (\<lambda>b. b = 0x1A) (rev d))"

section \<open>Layout\<close>

text \<open>Claim C7: the derived layout constants are DIR\_OFFSET = 6656, DATA\_OFFSET = 8704
  and TOTAL\_BLOCKS = 247 for the 262144-byte image.\<close>

theorem layout_constants:
  "DISK_SIZE = 262144 \<and> DIR_OFFSET = 6656 \<and> DATA_OFFSET = 8704 \<and> TOTAL_BLOCKS = 247"
  by (simp add: geometry_defs)

declare write_extents.simps [simp del] groups.simps [simp del] strip_eof.simps [simp del]

lemma geometry:
  "DISK_SIZE = 262144" "SECTOR_SIZE = 128" "BLOCK_SIZE = 1024" "DIR_ENTRIES = 64"
  "ENTRY_SIZE = 32" "DIR_OFFSET = 6656" "DATA_OFFSET = 8704" "TOTAL_BLOCKS = 247"
  by (simp_all add: geometry_defs)

lemma slot_offset_eq: "slot_offset i = 6656 + i * 32"
  by (simp add: slot_offset_def geometry)

lemma block_offset_eq: "2 \<le> b \<Longrightarrow> block_offset b = 8704 + (b - 2) * 1024"
  by (simp add: block_offset_def geometry nat_add_distrib nat_mult_distrib algebra_simps of_nat_diff)

lemma block_offset_eq': "1 \<le> b \<Longrightarrow> block_offset b = 6656 + b * 1024"
  by (simp add: block_offset_def geometry nat_add_distrib nat_mult_distrib algebra_simps of_nat_diff)

lemma length_slice: "length (slice xs a b) = min (b - a) (length xs - a)"
  by (simp add: slice_def)

lemma nth_slice: "p < b - a \<Longrightarrow> a + p < length xs \<Longrightarrow> slice xs a b ! p = xs ! (a + p)"
  by (simp add: slice_def)

lemma slice_cong:
  assumes "b \<le> length xs" "b \<le> length ys" "\<And>p. a \<le> p \<Longrightarrow> p < b \<Longrightarrow> xs ! p = ys ! p"
  shows "slice xs a b = slice ys a b"
proof (rule nth_equalityI)
  show "length (slice xs a b) = length (slice ys a b)"
    using assms(1,2) by (simp add: length_slice)
next
  fix i assume "i < length (slice xs a b)"
  then have i: "i < b - a" "a + i < length xs" "a + i < length ys"
    using assms(1,2) by (auto simp: length_slice)
  then show "slice xs a b ! i = slice ys a b ! i"
    using assms(3) [of "a + i"] by (simp add: nth_slice)
qed

lemma length_slice_assign:
  "a \<le> b \<Longrightarrow> b \<le> length xs \<Longrightarrow> length ys = b - a \<Longrightarrow> length (slice_assign xs a b ys) = length xs"
  by (simp add: slice_assign_def)

lemma nth_slice_assign:
  "a \<le> b \<Longrightarrow> b \<le> length xs \<Longrightarrow> length ys = b - a \<Longrightarrow> p < length xs \<Longrightarrow>
   slice_assign xs a b ys ! p = (if a \<le> p \<and> p < b then ys ! (p - a) else xs ! p)"
  by (auto simp: slice_assign_def nth_append max_def)

lemma slice_slice_assign_same:
  assumes "a \<le> b" "b \<le> length xs" "length ys = b - a"
  shows "slice (slice_assign xs a b ys) a b = ys"
proof (rule nth_equalityI)
  show "length (slice (slice_assign xs a b ys) a b) = length ys"
    using assms by (simp add: length_slice length_slice_assign)
next
  fix i assume "i < length (slice (slice_assign xs a b ys) a b)"
  then have "i < b - a" using assms by (simp add: length_slice length_slice_assign)
  then show "slice (slice_assign xs a b ys) a b ! i = ys ! i"
    using assms by (auto simp: nth_slice length_slice_assign nth_slice_assign)
qed

subsection \<open>Sequences of region writes\<close>

lemma length_put_regions:
  "in_range regs (length disk) \<Longrightarrow> length (put_regions disk regs) = length disk"
proof (induction regs arbitrary: disk)
  case Nil
  then show ?case by simp
next
  case (Cons r regs)
  obtain off ys where r: "r = (off, ys)" by (cases r)
  from Cons.prems have "off + length ys \<le> length disk" "in_range regs (length disk)"
    by (simp_all add: in_range_def r)
  then show ?case
    using Cons.IH [of "slice_assign disk off (off + length ys) ys"]
    by (simp add: r length_slice_assign)
qed

lemma put_regions_frame:
  "in_range regs (length disk) \<Longrightarrow> p < length disk \<Longrightarrow>
   list_all (\<lambda>(off, ys). \<not> (off \<le> p \<and> p < off + length ys)) regs \<Longrightarrow>
   put_regions disk regs ! p = disk ! p"
proof (induction regs arbitrary: disk)
  case Nil
  then show ?case by simp
next
  case (Cons r regs)
  obtain off ys where r: "r = (off, ys)" by (cases r)
  let ?d = "slice_assign disk off (off + length ys) ys"
  from Cons.prems have a: "off + length ys \<le> length disk" "in_range regs (length disk)"
    and b: "\<not> (off \<le> p \<and> p < off + length ys)"
      "list_all (\<lambda>(off, ys). \<not> (off \<le> p \<and> p < off + length ys)) regs"
    by (simp_all add: in_range_def r)
  have len: "length ?d = length disk" using a by (simp add: length_slice_assign)
  have "put_regions ?d regs ! p = ?d ! p"
    using Cons.IH [of ?d] a b Cons.prems(2) by (simp add: len)
  also have "?d ! p = disk ! p"
    using a b Cons.prems(2) by (auto simp: nth_slice_assign)
  finally show ?case by (simp add: r)
qed

lemma put_regions_content:
  "in_range regs (length disk) \<Longrightarrow> disjoint_regions regs \<Longrightarrow> (off, ys) \<in> set regs \<Longrightarrow>
   slice (put_regions disk regs) off (off + length ys) = ys"
proof (induction regs arbitrary: disk)
  case Nil
  then show ?case by simp
next
  case (Cons r regs)
  obtain off' ys' where r: "r = (off', ys')" by (cases r)
  let ?d = "slice_assign disk off' (off' + length ys') ys'"
  from Cons.prems have a: "off' + length ys' \<le> length disk" "in_range regs (length disk)"
    and dj: "list_all (\<lambda>(o2, y2). off' + length ys' \<le> o2 \<or> o2 + length y2 \<le> off') regs"
      "disjoint_regions regs"
    by (simp_all add: in_range_def r)
  have len: "length ?d = length disk" using a by (simp add: length_slice_assign)
  show ?case
  proof (cases "(off, ys) \<in> set regs")
    case True
    then show ?thesis using Cons.IH [of ?d] a dj by (simp add: r len)
  next
    case False
    with Cons.prems(3) have eq: "off = off'" "ys = ys'" by (simp_all add: r)
    have "slice (put_regions ?d regs) off' (off' + length ys') = slice ?d off' (off' + length ys')"
    proof (rule slice_cong)
      show "off' + length ys' \<le> length (put_regions ?d regs)"
        using a by (simp add: length_put_regions len)
      show "off' + length ys' \<le> length ?d" using a by (simp add: len)
    next
      fix p assume p: "off' \<le> p" "p < off' + length ys'"
      have "list_all (\<lambda>(off, ys). \<not> (off \<le> p \<and> p < off + length ys)) regs"
        using dj(1) p by (auto simp: list_all_iff)
      then show "put_regions ?d regs ! p = ?d ! p"
        using put_regions_frame [of regs ?d p] a p by (simp add: len)
    qed
    also have "\<dots> = ys'" using a by (simp add: slice_slice_assign_same)
    finally show ?thesis by (simp add: r eq)
  qed
qed

lemma put_regions_append:
  "put_regions disk (r1 @ r2) = put_regions (put_regions disk r1) r2"
  by (induction r1 arbitrary: disk) auto

lemma getitem_ok: "i < length xs \<Longrightarrow> getitem xs i = Inr (xs ! i)"
  by (simp add: getitem_def)

lemma slot_end: "i < DIR_ENTRIES \<Longrightarrow> slot_offset i + ENTRY_SIZE \<le> DATA_OFFSET"
  by (simp add: slot_offset_def geometry)

lemma length_entry_at:
  "DATA_OFFSET \<le> length disk \<Longrightarrow> i < DIR_ENTRIES \<Longrightarrow> length (entry_at disk i) = 32"
  using slot_end [of i] by (simp add: entry_at_def length_slice geometry)

lemma nth_entry_at:
  "DATA_OFFSET \<le> length disk \<Longrightarrow> i < DIR_ENTRIES \<Longrightarrow> j < 32 \<Longrightarrow>
   entry_at disk i ! j = disk ! (slot_offset i + j)"
  using slot_end [of i] by (simp add: entry_at_def nth_slice geometry)

lemma entry_at_status:
  "DATA_OFFSET \<le> length disk \<Longrightarrow> i < DIR_ENTRIES \<Longrightarrow> entry_at disk i ! 0 = status disk i"
  by (simp add: nth_entry_at status_def)

lemma scan_entry_blocks_eq:
  "\<forall>b\<in>set bs. 16 + b < length entry \<Longrightarrow>
   scan_entry_blocks entry bs used =
     Inr (used \<union> set (map unat (filter (\<lambda>v. v > 0) (map (\<lambda>b. entry ! (16 + b)) bs))))"
  by (induction bs arbitrary: used) (auto simp: getitem_ok)

lemma block_bytes: "32 \<le> length entry \<Longrightarrow> map (\<lambda>b. entry ! (16 + b)) [0..<16] = slice entry 16 32"
  by (rule nth_equalityI) (simp_all add: length_slice nth_slice)

lemma scan_entry_blocks_all:
  "32 \<le> length entry \<Longrightarrow> scan_entry_blocks entry [0..<16] used = Inr (used \<union> set (blocks_of entry))"
  using scan_entry_blocks_eq [of "[0..<16]" entry used] block_bytes [of entry]
  by (simp add: blocks_of_def)

lemma scan_used_eq:
  "DATA_OFFSET \<le> length disk \<Longrightarrow> \<forall>i\<in>set idxs. i < DIR_ENTRIES \<Longrightarrow>
   scan_used disk idxs used = Inr (used \<union> set (concat (map (slot_blocks disk) idxs)))"
proof (induction idxs arbitrary: used)
  case Nil
  then show ?case by simp
next
  case (Cons i idxs)
  have i: "i < DIR_ENTRIES" using Cons.prems by simp
  have e: "slice disk (DIR_OFFSET + i * ENTRY_SIZE) (DIR_OFFSET + i * ENTRY_SIZE + ENTRY_SIZE) = entry_at disk i"
    by (simp add: entry_at_def slot_offset_def)
  have len: "length (entry_at disk i) = 32" using Cons.prems i by (simp add: length_entry_at)
  have g: "getitem (entry_at disk i) 0 = Inr (status disk i)"
    using len entry_at_status [OF Cons.prems(1) i] by (simp add: getitem_ok)
  have c: "(status disk i \<noteq> EMPTY_ENTRY \<and> status disk i \<le> 15) = occupied (status disk i)"
    by (simp add: occupied_def)
  have ih: "\<And>u. scan_used disk idxs u = Inr (u \<union> set (concat (map (slot_blocks disk) idxs)))"
    using Cons.IH Cons.prems by simp
  show ?case
  proof (cases "occupied (status disk i)")
    case True
    then have sb: "slot_blocks disk i = blocks_of (entry_at disk i)" by (simp add: slot_blocks_def)
    show ?thesis
      using True len by (simp add: e g c scan_entry_blocks_all ih sb Un_assoc)
  next
    case False
    then have sb: "slot_blocks disk i = []" by (simp add: slot_blocks_def)
    show ?thesis
      using False by (simp add: e g c ih sb)
  qed
qed

lemma scan_free_eq:
  "length free < max count 1 \<Longrightarrow>
   scan_free used count bs free =
     free @ take (max count 1 - length free) (filter (\<lambda>b. b \<notin> used) bs)"
proof (induction bs arbitrary: free)
  case Nil
  then show ?case by simp
next
  case (Cons b bs)
  show ?case
  proof (cases "b \<in> used")
    case True
    then show ?thesis using Cons by simp
  next
    case False
    show ?thesis
    proof (cases "count \<le> length free + 1")
      case True
      with Cons.prems have "max count 1 - length free = 1" by (auto simp: max_def)
      then show ?thesis using False True by (simp add: Let_def)
    next
      case False2: False
      then have "length (free @ [b]) < max count 1" by simp
      from Cons.IH [OF this] show ?thesis using False False2
        by (simp add: Let_def take_Cons' max_def split: if_splits)
    qed
  qed
qed

lemma find_free_blocks_eq:
  "DATA_OFFSET \<le> length disk \<Longrightarrow>
   find_free_blocks disk count = Inr (take (max count 1) (free_list disk))"
  using scan_used_eq [of disk "[0..<DIR_ENTRIES]" "{}"] scan_free_eq [of "[]" count]
  by (simp add: find_free_blocks_def free_list_def used_blocks_def)

lemma scan_free_dir_eq:
  "DATA_OFFSET \<le> length disk \<Longrightarrow> \<forall>i\<in>set idxs. i < DIR_ENTRIES \<Longrightarrow>
   scan_free_dir disk idxs =
     Inr (case filter (\<lambda>i. status disk i = EMPTY_ENTRY) idxs of [] \<Rightarrow> None | s # _ \<Rightarrow> Some s)"
proof (induction idxs)
  case Nil
  then show ?case by simp
next
  case (Cons i idxs)
  have "slot_offset i < length disk" using slot_end [of i] Cons.prems by (simp add: geometry)
  then have "getitem disk (DIR_OFFSET + i * ENTRY_SIZE) = Inr (status disk i)"
    by (simp add: getitem_ok status_def slot_offset_def)
  then show ?case using Cons by simp
qed

lemma find_free_dir_entry_eq:
  "DATA_OFFSET \<le> length disk \<Longrightarrow>
   find_free_dir_entry disk = Inr (case free_slots disk of [] \<Rightarrow> None | s # _ \<Rightarrow> Some s)"
  using scan_free_dir_eq [of disk "[0..<DIR_ENTRIES]"]
  by (simp add: find_free_dir_entry_def free_slots_def)

subsection \<open>The blank image\<close>

lemma fold_update_length:
  "length (fold (\<lambda>i d. d[f i := v]) idxs xs) = length xs"
  by (induction idxs arbitrary: xs) auto

lemma fold_update_nth:
  "p < length xs \<Longrightarrow>
   fold (\<lambda>i d. d[f i := v]) idxs xs ! p = (if p \<in> f ` set idxs then v else xs ! p)"
  by (induction idxs arbitrary: xs) (auto simp: fold_update_length nth_list_update)

lemma length_create_disk: "length create_disk = DISK_SIZE"
  by (simp add: create_disk_def fold_update_length)

lemma status_create_disk: "i < DIR_ENTRIES \<Longrightarrow> status create_disk i = EMPTY_ENTRY"
proof -
  assume i: "i < DIR_ENTRIES"
  have "slot_offset i < DISK_SIZE" using i by (simp add: slot_offset_def geometry)
  moreover have "slot_offset i \<in> (\<lambda>i. DIR_OFFSET + i * ENTRY_SIZE) ` set [0..<DIR_ENTRIES]"
    using i by (auto simp: slot_offset_def)
  ultimately show ?thesis
    using fold_update_nth [of "slot_offset i" "replicate DISK_SIZE 0"
        "\<lambda>i. DIR_OFFSET + i * ENTRY_SIZE" EMPTY_ENTRY "[0..<DIR_ENTRIES]"]
    by (simp add: status_def create_disk_def del: set_upt)
qed

lemma free_slots_create_disk: "free_slots create_disk = [0..<DIR_ENTRIES]"
  by (simp add: free_slots_def status_create_disk)

lemma used_blocks_create_disk: "used_blocks create_disk = []"
  by (simp add: used_blocks_def slot_blocks_def status_create_disk occupied_def)

lemma free_list_create_disk: "free_list create_disk = [2..<TOTAL_BLOCKS]"
  by (simp add: free_list_def used_blocks_create_disk)

subsection \<open>What the allocator returns\<close>

lemma scan_free_subset: "set (scan_free used count bs free) \<subseteq> set free \<union> set bs"
proof (induction bs arbitrary: free)
  case Nil
  then show ?case by simp
next
  case (Cons b bs)
  show ?case
    using Cons.IH [of free] Cons.IH [of "free @ [b]"] by (auto simp: Let_def)
qed

section \<open>Block numbers fit in a byte\<close>

text \<open>Claim C10: every block number that find\_free\_blocks returns, on any image and for
  any count, lies between 2 and TOTAL\_BLOCKS - 1 = 246; so it is stored into a byte of
  a directory entry unchanged, and the item assignment never raises ValueError.\<close>

theorem free_blocks_fit_in_byte:
  assumes "find_free_blocks disk count = Inr free" and "b \<in> set free"
  shows "2 \<le> b \<and> b \<le> TOTAL_BLOCKS - 1 \<and> TOTAL_BLOCKS - 1 = 246
         \<and> unat (word_of_int (int b) :: byte) = b
         \<and> setitem entry j (int b) \<noteq> Inl ValueError"
proof -
  from assms(1) obtain used where "free = scan_free used count [2..<TOTAL_BLOCKS] []"
    by (auto simp: find_free_blocks_def split: sum.splits)
  with assms(2) scan_free_subset [of used count "[2..<TOTAL_BLOCKS]" "[]"]
  have b: "2 \<le> b" "b < TOTAL_BLOCKS" by auto
  then have "b < 256" by (simp add: geometry)
  then have "unat (word_of_int (int b) :: byte) = b"
    by (simp add: unat_of_nat)
  with b \<open>b < 256\<close> show ?thesis by (simp add: geometry setitem_def)
qed

theorem free_blocks_fit_in_byte_witness:
  "find_free_blocks create_disk 3 = Inr [2, 3, 4]
   \<and> 2 \<le> (4::nat) \<and> (4::nat) \<le> TOTAL_BLOCKS - 1 \<and> TOTAL_BLOCKS - 1 = 246
   \<and> unat (word_of_int (int 4) :: byte) = 4
   \<and> setitem (replicate 32 0) 18 (int 4) \<noteq> Inl ValueError"
proof -
  have "[2..<TOTAL_BLOCKS] = 2 # 3 # 4 # [5..<TOTAL_BLOCKS]"
    by (simp add: geometry upt_conv_Cons)
  then have h: "find_free_blocks create_disk 3 = Inr [2, 3, 4]"
    by (simp add: find_free_blocks_eq length_create_disk geometry free_list_create_disk)
  show ?thesis
    using h free_blocks_fit_in_byte [OF h, of 4 "replicate 32 0" 18] by simp
qed

lemma add_insufficient_space_aux:
  assumes "length disk = DISK_SIZE" and "length (free_list disk) < blocks_needed data"
  shows "failure (add_file disk filename data) = Some InsufficientSpace
         \<and> buffer (add_file disk filename data) = disk
         \<and> stored (add_file disk filename data) = disk"
proof -
  have "find_free_blocks disk (blocks_needed data) =
          Inr (take (max (blocks_needed data) 1) (free_list disk))"
    using assms(1) by (simp add: find_free_blocks_eq geometry)
  then show ?thesis
    using assms(2) by (simp add: add_file_def Let_def split: prod.splits)
qed

section \<open>Capacity exhaustion\<close>

text \<open>Claim C4: on every image (of the fixed size), when the data needs more allocation
  blocks than are free, add\_file fails with "Not enough space" (InsufficientSpace) and
  nothing is modified: the in-memory buffer and the stored image both equal the image
  add\_file started from.\<close>

theorem add_insufficient_space:
  assumes "length disk = DISK_SIZE" and "length (free_list disk) < blocks_needed data"
  shows "failure (add_file disk filename data) = Some InsufficientSpace
         \<and> buffer (add_file disk filename data) = disk
         \<and> stored (add_file disk filename data) = disk"
  using assms by (rule add_insufficient_space_aux)

theorem add_insufficient_space_witness:
  "length create_disk = DISK_SIZE
   \<and> length (free_list create_disk) < blocks_needed (replicate 250881 0)
   \<and> failure (add_file create_disk ''BIG.BIN'' (replicate 250881 0)) = Some InsufficientSpace
   \<and> buffer (add_file create_disk ''BIG.BIN'' (replicate 250881 0)) = create_disk
   \<and> stored (add_file create_disk ''BIG.BIN'' (replicate 250881 0)) = create_disk"
proof -
  have h: "length (free_list create_disk) < blocks_needed (replicate 250881 0)"
    by (simp add: free_list_create_disk blocks_needed_def geometry)
  show ?thesis
    using h length_create_disk
      add_insufficient_space [OF length_create_disk h, of "''BIG.BIN''"]
    by simp
qed

subsection \<open>The extent number encoding\<close>

lemma extent_low_eq: "extent_low e = e mod 32"
proof -
  have "e AND 31 = take_bit 5 e" by (simp add: take_bit_eq_mask mask_eq_exp_minus_1)
  then show ?thesis by (simp add: extent_low_def take_bit_eq_mod)
qed

lemma extent_high_eq: "extent_high e = (e div 32) mod 64"
proof -
  have "drop_bit 5 e AND 63 = take_bit 6 (drop_bit 5 e)"
    by (simp add: take_bit_eq_mask mask_eq_exp_minus_1)
  then show ?thesis by (simp add: extent_high_def take_bit_eq_mod drop_bit_eq_div)
qed

lemma extent_number_eq: "extent_number low high = unat low + 32 * unat high"
  by (simp add: extent_number_def push_bit_eq_mult)

lemma extent_roundtrip:
  "e < 2048 \<Longrightarrow> extent_number (word_of_nat (extent_low e)) (word_of_nat (extent_high e)) = e"
proof -
  assume e: "e < 2048"
  have l: "unat (word_of_nat (e mod 32) :: byte) = e mod 32"
    by (simp add: unat_of_nat) 
  have "e div 32 < 64" using e by simp
  then have h: "unat (word_of_nat ((e div 32) mod 64) :: byte) = e div 32"
    by (simp add: unat_of_nat)
  show ?thesis by (simp add: extent_number_eq extent_low_eq extent_high_eq l h)
qed

lemma extent_low_lt: "int (extent_low e) < 256"
  by (simp add: extent_low_eq)

lemma extent_high_lt: "int (extent_high e) < 256"
  by (simp add: extent_high_eq)

text \<open>Claim C6, as amended: for every extent number below 2048 (11 bits: the five low
  bits in byte 12, the next six in byte 14), the two bytes written by add\_file are read
  back by extract\_file as the same number, and writing them never raises.\<close>

theorem extent_encoding_roundtrip_11bit:
  "e < 2048 \<Longrightarrow>
   extent_number (word_of_int (int (extent_low e))) (word_of_int (int (extent_high e))) = e
   \<and> setitem entry 12 (int (extent_low e)) \<noteq> Inl ValueError
   \<and> setitem entry 14 (int (extent_high e)) \<noteq> Inl ValueError"
  using extent_roundtrip [of e] extent_low_lt [of e] extent_high_lt [of e]
  by (simp add: setitem_def)

theorem extent_encoding_roundtrip_11bit_witness:
  "(2047::nat) < 2048
   \<and> extent_number (word_of_int (int (extent_low 2047))) (word_of_int (int (extent_high 2047))) = 2047
   \<and> setitem (replicate 32 0) 12 (int (extent_low 2047)) \<noteq> Inl ValueError
   \<and> setitem (replicate 32 0) 14 (int (extent_high 2047)) \<noteq> Inl ValueError"
  using extent_encoding_roundtrip_11bit [of 2047 "replicate 32 0"] by simp

text \<open>The claim as stated, for 13-bit numbers, fails: 2048 is below 8192 and is read
  back as 0.\<close>

theorem extent_encoding_13bit_counterexample:
  "(2048::nat) < 8192
   \<and> extent_number (word_of_int (int (extent_low 2048))) (word_of_int (int (extent_high 2048))) = 0"
  by (simp add: extent_number_eq extent_low_eq extent_high_eq)

subsection \<open>Building a directory entry\<close>

lemma setitem_ok:
  "i < length xs \<Longrightarrow> 0 \<le> v \<Longrightarrow> v < 256 \<Longrightarrow> setitem xs i v = Inr (xs[i := word_of_int v])"
  by (simp add: setitem_def)

lemma write_entry_blocks_eq:
  "\<forall>b\<in>set blks. b < 256 \<Longrightarrow> 16 + j0 + length blks \<le> length entry \<Longrightarrow>
   write_entry_blocks entry (enumerate j0 blks) =
     Inr (take (16 + j0) entry @ map word_of_nat blks @ drop (16 + j0 + length blks) entry)"
proof (induction blks arbitrary: j0 entry)
  case Nil
  then show ?case by simp
next
  case (Cons b blks)
  let ?e = "entry[16 + j0 := word_of_nat b]"
  have s: "setitem entry (16 + j0) (int b) = Inr ?e"
    using Cons.prems by (simp add: setitem_ok)
  have ih: "write_entry_blocks ?e (enumerate (Suc j0) blks) =
      Inr (take (16 + Suc j0) ?e @ map word_of_nat blks @ drop (16 + Suc j0 + length blks) ?e)"
    using Cons.prems by (intro Cons.IH) simp_all
  have "take (Suc (16 + j0)) ?e = take (16 + j0) ?e @ [?e ! (16 + j0)]"
    using Cons.prems by (intro take_Suc_conv_app_nth) simp
  then have t: "take (16 + Suc j0) ?e = take (16 + j0) entry @ [word_of_nat b]"
    using Cons.prems by simp
  have "16 + Suc j0 + length blks = 16 + j0 + length (b # blks)" by simp
  then have d: "drop (16 + Suc j0 + length blks) ?e = drop (16 + j0 + length (b # blks)) entry"
    by (simp only: drop_update_cancel)
  have "write_entry_blocks entry (enumerate j0 (b # blks)) =
      write_entry_blocks ?e (enumerate (Suc j0) blks)"
    by (simp add: s)
  also note ih
  finally show ?case unfolding t d by simp
qed

lemma entry_header:
  "length name = 8 \<Longrightarrow> length ext = 3 \<Longrightarrow>
   (slice_assign (slice_assign ((replicate 32 0)[0 := 0]) 1 9 name) 9 12 ext)
      [12 := lo, 13 := 0, 14 := hi, 15 := rc]
   = [0] @ name @ ext @ [lo, 0, hi, rc] @ replicate 16 (0::byte)"
proof -
  assume "length name = 8" "length ext = 3"
  then obtain n0 n1 n2 n3 n4 n5 n6 n7 x0 x1 x2
    where n: "name = [n0, n1, n2, n3, n4, n5, n6, n7]" and x: "ext = [x0, x1, x2]"
    by (auto simp: length_Suc_conv numeral_eq_Suc)
  show ?thesis
    by (simp add: n x slice_assign_def numeral_eq_Suc)
qed

lemma build_entry_eq:
  assumes "length name = 8" "length ext = 3" "length blks \<le> 16" "\<forall>b\<in>set blks. b < 256"
    "extent * 128 \<le> records"
  shows "build_entry name ext records extent blks = Inr (mk_entry name ext records extent blks)"
proof -
  define lo :: byte where "lo = word_of_int (int (extent_low extent))"
  define hi :: byte where "hi = word_of_int (int (extent_high extent))"
  define rc :: byte where "rc = word_of_int (min (int records - (int extent * 128)) 128)"
  define pre where "pre = [0] @ name @ ext @ [lo, 0, hi, rc]"
  define hd32 where "hd32 = [0] @ name @ ext @ [lo, 0, hi, rc] @ replicate 16 (0::byte)"
  have pre: "hd32 = pre @ replicate 16 0" "length pre = 16"
    using assms(1,2) by (simp_all add: hd32_def pre_def)
  have lo: "int (extent_low extent) < 256" by (rule extent_low_lt)
  have hi: "int (extent_high extent) < 256" by (rule extent_high_lt)
  have rc: "0 \<le> min (int records - (int extent * 128)) 128"
    "min (int records - (int extent * 128)) 128 < 256"
    using assms(5) by auto
  have len: "length (slice_assign (slice_assign ((replicate 32 0)[0 := 0::byte]) 1 9 name) 9 12 ext) = 32"
    using assms(1,2) by (simp add: slice_assign_def)
  have "build_entry name ext records extent blks =
          write_entry_blocks hd32 (enumerate 0 blks)"
    unfolding hd32_def
    using lo hi rc len entry_header [OF assms(1,2), of lo hi rc, symmetric]
    by (simp add: build_entry_def ebind_def setitem_ok geometry lo_def hi_def rc_def)
  also have "\<dots> = Inr (take (16 + 0) hd32 @ map word_of_nat blks @ drop (16 + 0 + length blks) hd32)"
    using assms(1-4) by (intro write_entry_blocks_eq) (simp_all add: hd32_def)
  also have "take (16 + 0) hd32 @ map word_of_nat blks @ drop (16 + 0 + length blks) hd32
      = pre @ map word_of_nat blks @ replicate (16 - length blks) 0"
    using pre(2) by (simp add: pre(1))
  also have "\<dots> = mk_entry name ext records extent blks"
    by (simp add: pre_def mk_entry_def lo_def hi_def rc_def)
  finally show ?thesis .
qed

lemma length_mk_entry:
  "length name = 8 \<Longrightarrow> length ext = 3 \<Longrightarrow> length blks \<le> 16 \<Longrightarrow>
   length (mk_entry name ext records extent blks) = 32"
  by (simp add: mk_entry_def)

lemma mk_entry_status: "mk_entry name ext records extent blks ! 0 = 0"
  by (simp add: mk_entry_def)

subsection \<open>Writing the data blocks\<close>

lemma length_chunk_of: "length (chunk_of data i) = BLOCK_SIZE"
  by (simp add: chunk_of_def Let_def length_slice) arith

lemma write_blocks_eq: "write_blocks data ibs disk = put_regions disk (block_regions data ibs)"
  by (induction ibs arbitrary: disk) (auto simp: block_regions_def length_chunk_of)

subsection \<open>The directory loop\<close>

lemma groups_unfold:
  "block_idx < length free_blocks \<Longrightarrow>
   groups free_blocks extent block_idx =
     (extent, slice free_blocks block_idx (block_idx + 16))
       # groups free_blocks (extent + 1) (block_idx + 16)"
  by (subst groups.simps) simp

lemma groups_done: "\<not> block_idx < length free_blocks \<Longrightarrow> groups free_blocks extent block_idx = []"
  by (subst groups.simps) simp

lemma set_slice_subset: "set (slice xs a b) \<subseteq> set xs"
  by (auto simp: slice_def dest: in_set_takeD in_set_dropD)

lemma groups_member:
  "(e, blks) \<in> set (groups free extent bi) \<Longrightarrow>
   \<exists>j. e = extent + j \<and> bi + 16 * j < length free
       \<and> blks = slice free (bi + 16 * j) (bi + 16 * j + 16)"
proof (induction free extent bi rule: groups.induct)
  case (1 free extent bi)
  show ?case
  proof (cases "bi < length free")
    case False
    with "1.prems" show ?thesis by (simp add: groups_done)
  next
    case True
    from "1.prems" have "(e, blks) = (extent, slice free bi (bi + 16))
        \<or> (e, blks) \<in> set (groups free (extent + 1) (bi + 16))"
      by (simp add: groups_unfold [OF True])
    then show ?thesis
    proof
      assume "(e, blks) = (extent, slice free bi (bi + 16))"
      then show ?thesis using True by (intro exI [of _ 0]) simp
    next
      assume "(e, blks) \<in> set (groups free (extent + 1) (bi + 16))"
      from "1.IH" [OF True this] obtain j where
        "e = extent + 1 + j" "bi + 16 + 16 * j < length free"
        "blks = slice free (bi + 16 + 16 * j) (bi + 16 + 16 * j + 16)"
        by auto
      then show ?thesis by (intro exI [of _ "Suc j"]) (simp add: add.assoc)
    qed
  qed
qed

lemma groups_blocks:
  "(e, blks) \<in> set (groups free extent bi) \<Longrightarrow> length blks \<le> 16 \<and> set blks \<subseteq> set free"
  using groups_member [of e blks free extent bi] set_slice_subset [of free]
  by (auto simp: length_slice)

lemma filter_first_removed:
  assumes "distinct xs" "filter P xs = s # rest"
  shows "filter (\<lambda>i. i \<noteq> s \<and> P i) xs = rest"
proof -
  have "distinct (s # rest)" using assms distinct_filter [of xs P] by simp
  then have "filter (\<lambda>i. i \<noteq> s) (s # rest) = rest" by (simp add: filter_id_conv) auto
  moreover have "filter (\<lambda>i. i \<noteq> s \<and> P i) xs = filter (\<lambda>i. i \<noteq> s) (filter P xs)"
    by (simp add: conj_commute)
  ultimately show ?thesis by (simp add: assms(2))
qed

lemma slot_offset_inj: "slot_offset i = slot_offset j \<Longrightarrow> i = j"
  by (simp add: slot_offset_eq)

lemma status_after_entry:
  assumes "DATA_OFFSET \<le> length disk" "s < DIR_ENTRIES" "i < DIR_ENTRIES" "length entry = 32"
  shows "status (slice_assign disk (slot_offset s) (slot_offset s + 32) entry) i
         = (if i = s then entry ! 0 else status disk i)"
proof -
  have a: "slot_offset s + 32 \<le> length disk" "slot_offset i < length disk"
    using assms(1) slot_end [of s] slot_end [of i] assms(2,3) by (simp_all add: geometry)
  have "i \<noteq> s \<Longrightarrow> \<not> (slot_offset s \<le> slot_offset i \<and> slot_offset i < slot_offset s + 32)"
    by (simp add: slot_offset_eq)
  then show ?thesis
    using a assms(4) by (auto simp: status_def nth_slice_assign)
qed

lemma free_slots_member: "s \<in> set (free_slots disk) \<Longrightarrow> s < DIR_ENTRIES"
  by (simp add: free_slots_def)

lemma free_slots_claim:
  assumes "DATA_OFFSET \<le> length disk" "free_slots disk = s # rest" "length entry = 32"
    "entry ! 0 \<noteq> EMPTY_ENTRY"
  shows "free_slots (slice_assign disk (slot_offset s) (slot_offset s + 32) entry) = rest"
proof -
  let ?d = "slice_assign disk (slot_offset s) (slot_offset s + 32) entry"
  have s: "s < DIR_ENTRIES" using assms(2) free_slots_member [of s disk] by simp
  have "free_slots ?d = filter (\<lambda>i. i \<noteq> s \<and> status disk i = EMPTY_ENTRY) [0..<DIR_ENTRIES]"
    unfolding free_slots_def
    using assms(4) by (intro filter_cong refl) (auto simp: status_after_entry [OF assms(1) s _ assms(3)])
  also have "\<dots> = rest"
    using assms(2) by (intro filter_first_removed) (simp_all add: free_slots_def)
  finally show ?thesis .
qed

lemma write_extents_eq:
  "DATA_OFFSET \<le> length disk \<Longrightarrow> length name = 8 \<Longrightarrow> length ext = 3 \<Longrightarrow>
   \<forall>b\<in>set free. b < 256 \<Longrightarrow>
   \<forall>(e, blks)\<in>set (groups free extent bi). e * 128 \<le> records \<Longrightarrow>
   write_extents name ext records free extent bi disk =
     (if length (groups free extent bi) \<le> length (free_slots disk) then None
      else Some DirectoryFull,
      put_regions disk (entry_regions name ext records (free_slots disk) (groups free extent bi)))"
proof (induction name ext records free extent bi disk rule: write_extents.induct)
  case (1 name ext records free extent bi disk)
  show ?case
  proof (cases "bi < length free")
    case False
    then show ?thesis
      by (subst write_extents.simps) (simp add: groups_done entry_regions_def)
  next
    case True
    define blks where "blks = slice free bi (bi + 16)"
    have g: "groups free extent bi = (extent, blks) # groups free (extent + 1) (bi + 16)"
      using True by (simp add: groups_unfold blks_def)
    show ?thesis
    proof (cases "free_slots disk")
      case Nil
      then have "find_free_dir_entry disk = Inr None"
        using "1.prems"(1) by (simp add: find_free_dir_entry_eq)
      then show ?thesis
        using True Nil g by (subst write_extents.simps) (simp add: entry_regions_def)
    next
      case (Cons s rest)
      have f: "find_free_dir_entry disk = Inr (Some s)"
        using "1.prems"(1) Cons by (simp add: find_free_dir_entry_eq)
      have bl: "length blks \<le> 16" "\<forall>b\<in>set blks. b < 256"
        using "1.prems"(4) set_slice_subset [of free bi "bi + 16"]
        by (auto simp: blks_def length_slice)
      have rec: "extent * 128 \<le> records"
        using "1.prems"(5) by (simp add: g)
      let ?entry = "mk_entry name ext records extent blks"
      have b: "build_entry name ext records extent (slice free bi (bi + 16)) = Inr ?entry"
        using "1.prems"(2,3) bl rec unfolding blks_def [symmetric] by (rule build_entry_eq)
      have el: "length ?entry = 32"
        using "1.prems"(2,3) bl(1) by (rule length_mk_entry)
      let ?d = "slice_assign disk (DIR_OFFSET + s * ENTRY_SIZE)
                  (DIR_OFFSET + s * ENTRY_SIZE + ENTRY_SIZE) ?entry"
      have d: "?d = slice_assign disk (slot_offset s) (slot_offset s + 32) ?entry"
        by (simp add: slot_offset_def geometry)
      have s: "s < DIR_ENTRIES" using Cons free_slots_member [of s disk] by simp
      have len: "length ?d = length disk"
        unfolding d using slot_end [of s] s "1.prems"(1) el
        by (intro length_slice_assign) (simp_all add: geometry)
      have fs: "free_slots ?d = rest"
        unfolding d using "1.prems"(1) Cons el
        by (rule free_slots_claim) (simp add: mk_entry_status EMPTY_ENTRY_def)
      have ih: "write_extents name ext records free (extent + 1) (bi + 16) ?d =
          (if length (groups free (extent + 1) (bi + 16)) \<le> length rest then None
           else Some DirectoryFull,
           put_regions ?d (entry_regions name ext records rest (groups free (extent + 1) (bi + 16))))"
        using "1.IH" [OF True f refl refl refl b] "1.prems"(1-5) len
        by (simp add: fs g)
      have "write_extents name ext records free extent bi disk =
          write_extents name ext records free (extent + 1) (bi + 16) ?d"
        using True f b by (subst write_extents.simps) (simp add: Let_def)
      also note ih
      finally show ?thesis
        using el by (simp add: g Cons entry_regions_def d)
    qed
  qed
qed

subsection \<open>The buffer add\_file builds\<close>

lemma length_pad_83:
  "pad_83 s = (name, ext) \<Longrightarrow> length (encode name) = 8 \<and> length (encode ext) = 3"
  by (auto simp: pad_83_def ljust_def encode_def split: prod.splits)

lemma free_list_range: "b \<in> set (free_list disk) \<Longrightarrow> 2 \<le> b \<and> b < TOTAL_BLOCKS"
  by (simp add: free_list_def)


lemma distinct_free_list: "distinct (free_list disk)"
  by (simp add: free_list_def)

lemma allocated_range: "b \<in> set (allocated disk data) \<Longrightarrow> 2 \<le> b \<and> b < TOTAL_BLOCKS"
  using free_list_range [of b disk] by (auto simp: allocated_def dest: in_set_takeD)


lemma distinct_allocated: "distinct (allocated disk data)"
  by (simp add: allocated_def distinct_free_list)

lemma length_allocated: "length (allocated disk data) \<le> max (blocks_needed data) 1"
  by (simp add: allocated_def)

lemma block_range:
  "2 \<le> b \<Longrightarrow> b < TOTAL_BLOCKS \<Longrightarrow>
   DATA_OFFSET \<le> block_offset b \<and> block_offset b + BLOCK_SIZE \<le> DISK_SIZE"
  by (simp add: block_offset_eq geometry)

lemma block_regions_in_range:
  "\<forall>(i, b)\<in>set ibs. 2 \<le> b \<and> b < TOTAL_BLOCKS \<Longrightarrow> in_range (block_regions data ibs) DISK_SIZE"
  using block_range
  by (auto simp: in_range_def block_regions_def list_all_iff length_chunk_of)

lemma block_regions_above_dir:
  "\<forall>(i, b)\<in>set ibs. 2 \<le> b \<and> b < TOTAL_BLOCKS \<Longrightarrow>
   list_all (\<lambda>(off, ys). DATA_OFFSET \<le> off) (block_regions data ibs)"
  using block_range by (auto simp: block_regions_def list_all_iff)

lemma enumerate_member: "(i, b) \<in> set (enumerate n xs) \<Longrightarrow> b \<in> set xs"
  by (auto simp: enumerate_eq_zip dest: set_zip_rightD)

lemma groups_records:
  assumes "(e, blks) \<in> set (groups (allocated disk data) 0 0)"
  shows "e * 128 \<le> records_of data"
proof -
  from groups_member [OF assms] have "16 * e < length (allocated disk data)" by auto
  with length_allocated [of disk data] have "16 * e < max (blocks_needed data) 1" by simp
  then show ?thesis
    by (simp add: blocks_needed_def records_of_def geometry max_def split: if_splits)
qed

lemma dir_frame:
  assumes "in_range regs (length disk)" "list_all (\<lambda>(off, ys). DATA_OFFSET \<le> off) regs"
    "p < DATA_OFFSET" "DATA_OFFSET \<le> length disk"
  shows "put_regions disk regs ! p = disk ! p"
  using assms by (intro put_regions_frame) (auto simp: list_all_iff)

lemma free_slots_dir_cong:
  assumes "\<And>p. p < DATA_OFFSET \<Longrightarrow> disk' ! p = disk ! p"
  shows "free_slots disk' = free_slots disk"
  unfolding free_slots_def
proof (intro filter_cong refl)
  fix i assume "i \<in> set [0..<DIR_ENTRIES]"
  then have "slot_offset i < DATA_OFFSET" using slot_end [of i] by (simp add: geometry)
  then show "(status disk' i = EMPTY_ENTRY) = (status disk i = EMPTY_ENTRY)"
    by (simp add: status_def assms)
qed

lemma add_file_eq:
  assumes "length disk = DISK_SIZE" "blocks_needed data \<le> length (free_list disk)"
  shows "add_file disk filename data =
     (if length (groups (allocated disk data) 0 0) \<le> length (free_slots disk)
      then \<lparr>failure = None, buffer = add_buffer disk filename data,
             stored = add_buffer disk filename data\<rparr>
      else \<lparr>failure = Some DirectoryFull, buffer = add_buffer disk filename data,
             stored = disk\<rparr>)"
proof -
  obtain name ext where ne: "pad_83 (upper (basename filename)) = (name, ext)"
    by (cases "pad_83 (upper (basename filename))")
  let ?free = "allocated disk data"
  let ?regs = "block_regions data (enumerate 0 ?free)"
  let ?d1 = "put_regions disk ?regs"
  have ff: "find_free_blocks disk (blocks_needed data) = Inr ?free"
    using assms(1) by (simp add: find_free_blocks_eq geometry allocated_def)
  have enough: "\<not> length ?free < blocks_needed data"
    using assms(2) by (simp add: allocated_def)
  have rng: "\<forall>(i, b)\<in>set (enumerate 0 ?free). 2 \<le> b \<and> b < TOTAL_BLOCKS"
    using allocated_range enumerate_member by fastforce
  have ir: "in_range ?regs (length disk)"
    using block_regions_in_range [OF rng] by (simp add: assms(1))
  have len1: "length ?d1 = DISK_SIZE"
    using ir by (simp add: length_put_regions assms(1))
  have "\<And>p. p < DATA_OFFSET \<Longrightarrow> ?d1 ! p = disk ! p"
    using ir block_regions_above_dir [OF rng] assms(1)
    by (intro dir_frame) (simp_all add: geometry)
  then have fs: "free_slots ?d1 = free_slots disk" by (rule free_slots_dir_cong)
  have small: "\<forall>b\<in>set ?free. b < 256"
    using allocated_range by (fastforce simp: geometry)
  have recs: "\<forall>(e, blks)\<in>set (groups ?free 0 0). e * 128 \<le> records_of data"
    using groups_records by fastforce
  have we: "write_extents (encode name) (encode ext) (records_of data) ?free 0 0 ?d1 =
      (if length (groups ?free 0 0) \<le> length (free_slots disk) then None else Some DirectoryFull,
       add_buffer disk filename data)"
    using length_pad_83 [OF ne] small recs len1
    by (subst write_extents_eq) (simp_all add: geometry fs add_buffer_def ne)
  show ?thesis
    using enough
    by (simp add: add_file_def Let_def ne ff write_blocks_eq we)
qed

subsection \<open>Regions that do not overlap\<close>

lemma disjoint_regionsI:
  "(\<And>i j. i < j \<Longrightarrow> j < length regs \<Longrightarrow>
      fst (regs ! i) + length (snd (regs ! i)) \<le> fst (regs ! j)
      \<or> fst (regs ! j) + length (snd (regs ! j)) \<le> fst (regs ! i)) \<Longrightarrow>
   disjoint_regions regs"
proof (induction regs)
  case Nil
  then show ?case by simp
next
  case (Cons r regs)
  obtain off ys where r: "r = (off, ys)" by (cases r)
  have "disjoint_regions regs"
  proof (rule Cons.IH)
    fix i j assume "i < j" "j < length regs"
    then show "fst (regs ! i) + length (snd (regs ! i)) \<le> fst (regs ! j)
      \<or> fst (regs ! j) + length (snd (regs ! j)) \<le> fst (regs ! i)"
      using Cons.prems [of "Suc i" "Suc j"] by simp
  qed
  moreover have "list_all (\<lambda>(off', ys'). off + length ys \<le> off' \<or> off' + length ys' \<le> off) regs"
    unfolding list_all_length
  proof (intro allI impI)
    fix k assume "k < length regs"
    then show "case regs ! k of (off', ys') \<Rightarrow> off + length ys \<le> off' \<or> off' + length ys' \<le> off"
      using Cons.prems [of 0 "Suc k"] by (simp add: r case_prod_beta)
  qed
  ultimately show ?case by (simp add: r)
qed

lemma put_regions_slice_frame:
  assumes "in_range regs (length disk)" "b \<le> length disk"
    "list_all (\<lambda>(off, ys). off + length ys \<le> a \<or> b \<le> off) regs"
  shows "slice (put_regions disk regs) a b = slice disk a b"
proof (rule slice_cong)
  show "b \<le> length (put_regions disk regs)" using assms(1,2) by (simp add: length_put_regions)
  show "b \<le> length disk" by (rule assms(2))
next
  fix p assume p: "a \<le> p" "p < b"
  have "list_all (\<lambda>(off, ys). \<not> (off \<le> p \<and> p < off + length ys)) regs"
    using assms(3) p by (auto simp: list_all_iff)
  then show "put_regions disk regs ! p = disk ! p"
    using assms(1,2) p by (intro put_regions_frame) simp_all
qed

subsection \<open>The block regions\<close>

lemma length_block_regions: "length (block_regions data ibs) = length ibs"
  by (simp add: block_regions_def)

lemma nth_block_regions:
  "i < length free \<Longrightarrow>
   block_regions data (enumerate 0 free) ! i = (block_offset (free ! i), chunk_of data i)"
  by (simp add: block_regions_def nth_enumerate_eq)

lemma blocks_apart:
  "2 \<le> b \<Longrightarrow> 2 \<le> c \<Longrightarrow> b \<noteq> c \<Longrightarrow>
   block_offset b + BLOCK_SIZE \<le> block_offset c \<or> block_offset c + BLOCK_SIZE \<le> block_offset b"
  by (simp add: block_offset_eq geometry) arith

lemma disjoint_block_regions:
  assumes "distinct free" "\<forall>b\<in>set free. 2 \<le> b"
  shows "disjoint_regions (block_regions data (enumerate 0 free))"
proof (rule disjoint_regionsI)
  fix i j assume "i < j" "j < length (block_regions data (enumerate 0 free))"
  then have ij: "i < length free" "j < length free" "i \<noteq> j"
    by (simp_all add: length_block_regions)
  then have "free ! i \<noteq> free ! j" using assms(1) by (simp add: nth_eq_iff_index_eq)
  moreover have "2 \<le> free ! i" "2 \<le> free ! j" using assms(2) ij by simp_all
  ultimately show "fst (block_regions data (enumerate 0 free) ! i)
        + length (snd (block_regions data (enumerate 0 free) ! i))
        \<le> fst (block_regions data (enumerate 0 free) ! j)
      \<or> fst (block_regions data (enumerate 0 free) ! j)
        + length (snd (block_regions data (enumerate 0 free) ! j))
        \<le> fst (block_regions data (enumerate 0 free) ! i)"
    using ij blocks_apart [of "free ! i" "free ! j"]
    by (simp add: nth_block_regions length_chunk_of)
qed

subsection \<open>The entry regions\<close>

lemma length_entry_regions:
  "length (entry_regions name ext records slots gs) = min (length slots) (length gs)"
  by (simp add: entry_regions_def)

lemma nth_entry_regions:
  "j < length slots \<Longrightarrow> j < length gs \<Longrightarrow>
   entry_regions name ext records slots gs ! j
     = (slot_offset (slots ! j), mk_entry name ext records (fst (gs ! j)) (snd (gs ! j)))"
  by (simp add: entry_regions_def case_prod_beta)

lemma distinct_free_slots: "distinct (free_slots disk)"
  by (simp add: free_slots_def)

lemma slots_apart:
  "i \<noteq> j \<Longrightarrow> slot_offset i + 32 \<le> slot_offset j \<or> slot_offset j + 32 \<le> slot_offset i"
  by (simp add: slot_offset_eq) arith

lemma groups_nth_blocks:
  "j < length (groups free extent bi) \<Longrightarrow> length (snd (groups free extent bi ! j)) \<le> 16"
  using groups_blocks [of "fst (groups free extent bi ! j)" "snd (groups free extent bi ! j)"
      free extent bi] nth_mem [of j "groups free extent bi"]
  by simp

lemma length_group_entry:
  "length name = 8 \<Longrightarrow> length ext = 3 \<Longrightarrow> j < length (groups free extent bi) \<Longrightarrow>
   length (mk_entry name ext records (fst (groups free extent bi ! j))
            (snd (groups free extent bi ! j))) = 32"
  using groups_nth_blocks [of j free extent bi] by (simp add: length_mk_entry)

lemma disjoint_entry_regions:
  assumes "length name = 8" "length ext = 3" "distinct slots"
  shows "disjoint_regions (entry_regions name ext records slots (groups free extent bi))"
proof (rule disjoint_regionsI)
  let ?r = "entry_regions name ext records slots (groups free extent bi)"
  fix i j assume "i < j" "j < length ?r"
  then have ij: "i < length slots" "j < length slots" "i \<noteq> j"
    "i < length (groups free extent bi)" "j < length (groups free extent bi)"
    by (simp_all add: length_entry_regions)
  then have "slots ! i \<noteq> slots ! j" using assms(3) by (simp add: nth_eq_iff_index_eq)
  then show "fst (?r ! i) + length (snd (?r ! i)) \<le> fst (?r ! j)
      \<or> fst (?r ! j) + length (snd (?r ! j)) \<le> fst (?r ! i)"
    using ij slots_apart [of "slots ! i" "slots ! j"] assms(1,2)
    by (simp add: nth_entry_regions length_group_entry)
qed

lemma entry_regions_in_dir:
  assumes "length name = 8" "length ext = 3" "\<forall>s\<in>set slots. s < DIR_ENTRIES"
  shows "list_all (\<lambda>(off, ys). DIR_OFFSET \<le> off \<and> off + length ys \<le> DATA_OFFSET)
           (entry_regions name ext records slots (groups free extent bi))"
  unfolding list_all_length
proof (intro allI impI)
  let ?r = "entry_regions name ext records slots (groups free extent bi)"
  fix j assume "j < length ?r"
  then have j: "j < length slots" "j < length (groups free extent bi)"
    by (simp_all add: length_entry_regions)
  then have "slots ! j < DIR_ENTRIES" using assms(3) by simp
  then show "case ?r ! j of (off, ys) \<Rightarrow> DIR_OFFSET \<le> off \<and> off + length ys \<le> DATA_OFFSET"
    using j assms(1,2) slot_end [of "slots ! j"]
    by (simp add: nth_entry_regions length_group_entry slot_offset_def geometry)
qed

lemma entry_regions_in_range:
  assumes "length name = 8" "length ext = 3" "\<forall>s\<in>set slots. s < DIR_ENTRIES" "DATA_OFFSET \<le> n"
  shows "in_range (entry_regions name ext records slots (groups free extent bi)) n"
  using entry_regions_in_dir [OF assms(1-3), of records free extent bi] assms(4)
  by (auto simp: in_range_def list_all_iff)

subsection \<open>What the buffer holds\<close>

lemma allocated_regions:
  "in_range (block_regions data (enumerate 0 (allocated disk data))) DISK_SIZE"
  "list_all (\<lambda>(off, ys). DATA_OFFSET \<le> off) (block_regions data (enumerate 0 (allocated disk data)))"
  "disjoint_regions (block_regions data (enumerate 0 (allocated disk data)))"
proof -
  have rng: "\<forall>(i, b)\<in>set (enumerate 0 (allocated disk data)). 2 \<le> b \<and> b < TOTAL_BLOCKS"
    using allocated_range enumerate_member by fastforce
  show "in_range (block_regions data (enumerate 0 (allocated disk data))) DISK_SIZE"
    using rng by (rule block_regions_in_range)
  show "list_all (\<lambda>(off, ys). DATA_OFFSET \<le> off) (block_regions data (enumerate 0 (allocated disk data)))"
    using rng by (rule block_regions_above_dir)
  show "disjoint_regions (block_regions data (enumerate 0 (allocated disk data)))"
    using distinct_allocated allocated_range by (intro disjoint_block_regions) auto
qed

lemma length_after_blocks:
  "length disk = DISK_SIZE \<Longrightarrow>
   length (put_regions disk (block_regions data (enumerate 0 (allocated disk data)))) = DISK_SIZE"
  using allocated_regions(1) [of data disk] by (simp add: length_put_regions)

lemma length_claimed:
  "length (claimed disk data)
     = min (length (free_slots disk)) (length (groups (allocated disk data) 0 0))"
  by (simp add: claimed_def min.commute)

lemma claimed_nth: "j < length (claimed disk data) \<Longrightarrow> claimed disk data ! j = free_slots disk ! j"
  by (simp add: claimed_def)

lemma claimed_slot: "s \<in> set (claimed disk data) \<Longrightarrow> s < DIR_ENTRIES"
  using free_slots_member [of s disk] by (auto simp: claimed_def dest: in_set_takeD)

lemma length_add_buffer:
  assumes "length disk = DISK_SIZE"
  shows "length (add_buffer disk filename data) = DISK_SIZE"
proof -
  obtain name ext where ne: "pad_83 (upper (basename filename)) = (name, ext)"
    by (cases "pad_83 (upper (basename filename))")
  have "in_range (entry_regions (encode name) (encode ext) (records_of data) (free_slots disk)
          (groups (allocated disk data) 0 0)) DISK_SIZE"
    using length_pad_83 [OF ne] free_slots_member
    by (intro entry_regions_in_range) (auto simp: geometry)
  then show ?thesis
    using length_after_blocks [OF assms, of data]
    by (simp add: add_buffer_def ne length_put_regions)
qed

lemma add_buffer_frame:
  assumes "length disk = DISK_SIZE" "p < DISK_SIZE"
    "\<forall>b\<in>set (allocated disk data). \<not> in_block b p"
    "\<forall>s\<in>set (claimed disk data). \<not> in_slot s p"
  shows "add_buffer disk filename data ! p = disk ! p"
proof -
  obtain name ext where ne: "pad_83 (upper (basename filename)) = (name, ext)"
    by (cases "pad_83 (upper (basename filename))")
  let ?br = "block_regions data (enumerate 0 (allocated disk data))"
  let ?gs = "groups (allocated disk data) 0 0"
  let ?er = "entry_regions (encode name) (encode ext) (records_of data) (free_slots disk) ?gs"
  let ?d1 = "put_regions disk ?br"
  have l: "length (encode name) = 8" "length (encode ext) = 3"
    using length_pad_83 [OF ne] by simp_all
  have er: "in_range ?er DISK_SIZE"
    using l free_slots_member by (intro entry_regions_in_range) (auto simp: geometry)
  have "list_all (\<lambda>(off, ys). \<not> (off \<le> p \<and> p < off + length ys)) ?er"
    unfolding list_all_length
  proof (intro allI impI)
    fix j assume "j < length ?er"
    then have j: "j < length (free_slots disk)" "j < length ?gs"
      by (simp_all add: length_entry_regions)
    then have "j < length (claimed disk data)" by (simp add: length_claimed)
    then have "free_slots disk ! j \<in> set (claimed disk data)"
      using nth_mem [of j "claimed disk data"] by (simp add: claimed_nth)
    with assms(4) have "\<not> in_slot (free_slots disk ! j) p" by simp
    then show "case ?er ! j of (off, ys) \<Rightarrow> \<not> (off \<le> p \<and> p < off + length ys)"
      using j l by (simp add: nth_entry_regions length_group_entry in_slot_def geometry)
  qed
  then have "put_regions ?d1 ?er ! p = ?d1 ! p"
    using er assms(2) length_after_blocks [OF assms(1), of data]
    by (intro put_regions_frame) simp_all
  moreover have "list_all (\<lambda>(off, ys). \<not> (off \<le> p \<and> p < off + length ys)) ?br"
    unfolding list_all_length
  proof (intro allI impI)
    fix i assume "i < length ?br"
    then have i: "i < length (allocated disk data)" by (simp add: length_block_regions)
    with assms(3) have "\<not> in_block (allocated disk data ! i) p" by simp
    then show "case ?br ! i of (off, ys) \<Rightarrow> \<not> (off \<le> p \<and> p < off + length ys)"
      using i by (simp add: nth_block_regions length_chunk_of in_block_def)
  qed
  then have "?d1 ! p = disk ! p"
    using allocated_regions(1) [of data disk] assms(1,2)
    by (intro put_regions_frame) simp_all
  ultimately show ?thesis by (simp add: add_buffer_def ne)
qed

lemma add_buffer_block:
  assumes "length disk = DISK_SIZE" "i < length (allocated disk data)"
  shows "block_at (add_buffer disk filename data) (allocated disk data ! i) = chunk_of data i"
proof -
  obtain name ext where ne: "pad_83 (upper (basename filename)) = (name, ext)"
    by (cases "pad_83 (upper (basename filename))")
  let ?br = "block_regions data (enumerate 0 (allocated disk data))"
  let ?gs = "groups (allocated disk data) 0 0"
  let ?er = "entry_regions (encode name) (encode ext) (records_of data) (free_slots disk) ?gs"
  let ?d1 = "put_regions disk ?br"
  let ?b = "allocated disk data ! i"
  have l: "length (encode name) = 8" "length (encode ext) = 3"
    using length_pad_83 [OF ne] by simp_all
  have b: "DATA_OFFSET \<le> block_offset ?b" "block_offset ?b + BLOCK_SIZE \<le> DISK_SIZE"
    using allocated_range [of ?b disk data] assms(2) block_range [of ?b] by simp_all
  have er: "in_range ?er (length ?d1)"
    using l free_slots_member length_after_blocks [OF assms(1), of data]
    by (intro entry_regions_in_range) (auto simp: geometry)
  have "list_all (\<lambda>(off, ys). off + length ys \<le> block_offset ?b
          \<or> block_offset ?b + BLOCK_SIZE \<le> off) ?er"
    using entry_regions_in_dir [OF l, of "free_slots disk" "records_of data"
        "allocated disk data" 0 0] free_slots_member b(1)
    by (auto simp: list_all_iff)
  then have "slice (put_regions ?d1 ?er) (block_offset ?b) (block_offset ?b + BLOCK_SIZE)
      = slice ?d1 (block_offset ?b) (block_offset ?b + BLOCK_SIZE)"
    using er b(2) length_after_blocks [OF assms(1), of data]
    by (intro put_regions_slice_frame) simp_all
  also have "\<dots> = slice ?d1 (block_offset ?b) (block_offset ?b + length (chunk_of data i))"
    by (simp add: length_chunk_of)
  also have "\<dots> = chunk_of data i"
  proof (rule put_regions_content)
    show "in_range ?br (length disk)"
      using allocated_regions(1) [of data disk] by (simp add: assms(1))
    show "disjoint_regions ?br" by (rule allocated_regions(3))
    have "?br ! i \<in> set ?br" using assms(2) by (intro nth_mem) (simp add: length_block_regions)
    then show "(block_offset ?b, chunk_of data i) \<in> set ?br"
      using assms(2) by (simp add: nth_block_regions)
  qed
  finally show ?thesis by (simp add: block_at_def add_buffer_def ne)
qed

lemma add_buffer_entry:
  assumes "length disk = DISK_SIZE" "pad_83 (upper (basename filename)) = (name, ext)"
    "j < length (claimed disk data)"
  shows "entry_at (add_buffer disk filename data) (claimed disk data ! j)
         = mk_entry (encode name) (encode ext) (records_of data)
             (fst (groups (allocated disk data) 0 0 ! j))
             (snd (groups (allocated disk data) 0 0 ! j))"
proof -
  let ?br = "block_regions data (enumerate 0 (allocated disk data))"
  let ?gs = "groups (allocated disk data) 0 0"
  let ?er = "entry_regions (encode name) (encode ext) (records_of data) (free_slots disk) ?gs"
  let ?d1 = "put_regions disk ?br"
  let ?e = "mk_entry (encode name) (encode ext) (records_of data) (fst (?gs ! j)) (snd (?gs ! j))"
  have l: "length (encode name) = 8" "length (encode ext) = 3"
    using length_pad_83 [OF assms(2)] by simp_all
  have j: "j < length (free_slots disk)" "j < length ?gs"
    using assms(3) by (simp_all add: length_claimed)
  have le: "length ?e = 32" using l j(2) by (rule length_group_entry)
  have "slice (put_regions ?d1 ?er) (slot_offset (free_slots disk ! j))
          (slot_offset (free_slots disk ! j) + length ?e) = ?e"
  proof (rule put_regions_content)
    show "in_range ?er (length ?d1)"
      using l free_slots_member length_after_blocks [OF assms(1), of data]
      by (intro entry_regions_in_range) (auto simp: geometry)
    show "disjoint_regions ?er"
      using l distinct_free_slots by (rule disjoint_entry_regions)
    have "?er ! j \<in> set ?er" using j by (intro nth_mem) (simp add: length_entry_regions)
    then show "(slot_offset (free_slots disk ! j), ?e) \<in> set ?er"
      using j by (simp add: nth_entry_regions)
  qed
  then show ?thesis
    using assms(3) by (simp add: entry_at_def add_buffer_def assms(2) claimed_nth le geometry)
qed

subsection \<open>Reading an entry back\<close>

lemma read_entry_blocks_eq:
  "\<forall>b\<in>set bs. 16 + b < length entry \<Longrightarrow>
   read_entry_blocks entry bs =
     Inr (map unat (filter (\<lambda>v. v > 0) (map (\<lambda>b. entry ! (16 + b)) bs)))"
  by (induction bs) (auto simp: getitem_ok)

lemma read_entry_blocks_all:
  "32 \<le> length entry \<Longrightarrow> read_entry_blocks entry [0..<16] = Inr (blocks_of entry)"
  using read_entry_blocks_eq [of "[0..<16]" entry] block_bytes [of entry]
  by (simp add: blocks_of_def)

lemma decode_extent_eq: "32 \<le> length entry \<Longrightarrow> decode_extent entry = Inr (extent_of entry)"
  by (simp add: decode_extent_def ebind_def getitem_ok read_entry_blocks_all extent_of_def)

lemma mk_entry_parts:
  assumes "length name = 8" "length ext = 3"
  shows "mk_entry name ext records extent blks ! 12 = word_of_nat (extent_low extent)"
    "mk_entry name ext records extent blks ! 14 = word_of_nat (extent_high extent)"
    "mk_entry name ext records extent blks ! 15
       = word_of_int (min (int records - (int extent * 128)) 128)"
    "slice (mk_entry name ext records extent blks) 1 9 = name"
    "slice (mk_entry name ext records extent blks) 9 12 = ext"
    "slice (mk_entry name ext records extent blks) 16 32
       = take 16 (map word_of_nat blks @ replicate (16 - length blks) 0)"
  using assms by (simp_all add: mk_entry_def nth_append slice_def)

lemma blocks_of_mk_entry:
  assumes "length name = 8" "length ext = 3" "length blks \<le> 16" "\<forall>b\<in>set blks. 0 < b \<and> b < 256"
  shows "blocks_of (mk_entry name ext records extent blks) = blks"
proof -
  have nz: "\<forall>b\<in>set blks. (0::byte) < word_of_nat b"
  proof
    fix b assume "b \<in> set blks"
    then have "unat (word_of_nat b :: byte) = b" "0 < b"
      using assms(4) by (simp_all add: unat_of_nat)
    then show "(0::byte) < word_of_nat b"
      by (simp add: word_less_nat_alt)
  qed
  have "map (\<lambda>b. unat (word_of_nat b :: byte)) blks = blks"
    using assms(4) by (intro map_idI) (simp add: unat_of_nat)
  then have "map unat (map word_of_nat blks :: byte list) = blks"
    by (simp add: comp_def)
  then show ?thesis
    using assms(3) nz
    by (simp add: blocks_of_def mk_entry_parts(6) [OF assms(1,2)] filter_id_conv)
qed

lemma extent_of_mk_entry:
  assumes "length name = 8" "length ext = 3" "length blks \<le> 16" "\<forall>b\<in>set blks. 0 < b \<and> b < 256"
    "extent < 2048" "extent * 128 \<le> records"
  shows "extent_of (mk_entry name ext records extent blks)
         = (extent, min (records - extent * 128) 128, blks)"
proof -
  have "min (int records - int extent * 128) 128 = int (min (records - extent * 128) 128)"
    using assms(6) by (auto simp: min_def of_nat_diff)
  then have "unat (word_of_int (min (int records - int extent * 128) 128) :: byte)
      = min (records - extent * 128) 128"
    by (simp add: unat_of_nat)
  then show ?thesis
    using extent_roundtrip [OF assms(5)]
    by (simp add: extent_of_def mk_entry_parts(1-3) [OF assms(1,2)]
        blocks_of_mk_entry [OF assms(1-4)])
qed

subsection \<open>The groups, one by one\<close>

lemma length_groups: "length (groups free extent bi) = (length free - bi + 15) div 16"
proof (induction free extent bi rule: groups.induct)
  case (1 free extent bi)
  show ?case
  proof (cases "bi < length free")
    case True
    define n where "n = length free - bi"
    have n: "0 < n" "length free - (bi + 16) = n - 16" using True by (simp_all add: n_def)
    have "Suc ((n - 16 + 15) div 16) = (n + 15) div 16"
    proof (cases "16 \<le> n")
      case True
      then have "n + 15 = (n - 16 + 15) + 16" by simp
      then have "(n + 15) div 16 = (n - 16 + 15) div 16 + 1"
        by (simp only: div_add_self2)
      then show ?thesis by simp
    next
      case False
      then show ?thesis using n(1) by simp
    qed
    then show ?thesis
      using "1.IH" [OF True] True by (simp add: groups_unfold n n_def [symmetric])
  next
    case False
    then show ?thesis by (simp add: groups_done)
  qed
qed

lemma nth_groups:
  "j < length (groups free extent bi) \<Longrightarrow>
   groups free extent bi ! j = (extent + j, slice free (bi + 16 * j) (bi + 16 * j + 16))"
proof (induction free extent bi arbitrary: j rule: groups.induct)
  case (1 free extent bi)
  show ?case
  proof (cases "bi < length free")
    case False
    with "1.prems" show ?thesis by (simp add: groups_done)
  next
    case True
    show ?thesis
    proof (cases j)
      case 0
      then show ?thesis using True by (simp add: groups_unfold)
    next
      case (Suc k)
      then have "k < length (groups free (extent + 1) (bi + 16))"
        using "1.prems" True by (simp add: groups_unfold)
      from "1.IH" [OF True this] show ?thesis
        using True Suc by (simp add: groups_unfold add.assoc)
    qed
  qed
qed

subsection \<open>Slots and blocks that a call leaves alone\<close>

lemma slot_not_in_block: "in_slot i p \<Longrightarrow> i < DIR_ENTRIES \<Longrightarrow> 2 \<le> b \<Longrightarrow> \<not> in_block b p"
  using slot_end [of i] by (simp add: in_slot_def in_block_def block_offset_eq geometry)

lemma slot_not_in_slot: "in_slot i p \<Longrightarrow> s \<noteq> i \<Longrightarrow> \<not> in_slot s p"
  using slots_apart [of s i] by (auto simp: in_slot_def geometry)



lemma add_buffer_other_entry:
  assumes "length disk = DISK_SIZE" "i < DIR_ENTRIES" "i \<notin> set (claimed disk data)"
  shows "entry_at (add_buffer disk filename data) i = entry_at disk i"
  unfolding entry_at_def
proof (rule slice_cong)
  show "slot_offset i + ENTRY_SIZE \<le> length (add_buffer disk filename data)"
    using slot_end [OF assms(2)] by (simp add: length_add_buffer assms(1) geometry)
  show "slot_offset i + ENTRY_SIZE \<le> length disk"
    using slot_end [OF assms(2)] by (simp add: assms(1) geometry)
next
  fix p assume "slot_offset i \<le> p" "p < slot_offset i + ENTRY_SIZE"
  then have p: "in_slot i p" by (simp add: in_slot_def)
  then have "p < DISK_SIZE" using slot_end [OF assms(2)] by (simp add: in_slot_def geometry)
  moreover have "\<forall>b\<in>set (allocated disk data). \<not> in_block b p"
  proof
    fix b assume "b \<in> set (allocated disk data)"
    then have "2 \<le> b" using allocated_range [of b disk data] by simp
    then show "\<not> in_block b p" by (rule slot_not_in_block [OF p assms(2)])
  qed
  moreover have "\<forall>s\<in>set (claimed disk data). \<not> in_slot s p"
  proof
    fix s assume "s \<in> set (claimed disk data)"
    then have "s \<noteq> i" using assms(3) by auto
    then show "\<not> in_slot s p" by (rule slot_not_in_slot [OF p])
  qed
  ultimately show "add_buffer disk filename data ! p = disk ! p"
    using assms(1) by (intro add_buffer_frame)
qed




subsection \<open>The entries a call writes\<close>

lemma length_groups_allocated: "length (groups (allocated disk data) 0 0) \<le> 16"
proof -
  have "length (allocated disk data) \<le> length (free_list disk)" by (simp add: allocated_def)
  also have "\<dots> \<le> length [2..<TOTAL_BLOCKS]" unfolding free_list_def by (rule length_filter_le)
  finally have "length (allocated disk data) \<le> 245" by (simp add: geometry)
  then show ?thesis by (simp add: length_groups)
qed

lemma group_blocks:
  assumes "j < length (groups (allocated disk data) 0 0)"
  shows "groups (allocated disk data) 0 0 ! j
         = (j, slice (allocated disk data) (16 * j) (16 * j + 16))"
    "length (slice (allocated disk data) (16 * j) (16 * j + 16)) \<le> 16"
    "\<forall>b\<in>set (slice (allocated disk data) (16 * j) (16 * j + 16)). 0 < b \<and> b < 256"
    "j * 128 \<le> records_of data"
proof -
  show g: "groups (allocated disk data) 0 0 ! j
         = (j, slice (allocated disk data) (16 * j) (16 * j + 16))"
    using nth_groups [OF assms] by simp
  show "length (slice (allocated disk data) (16 * j) (16 * j + 16)) \<le> 16"
    by (simp add: length_slice)
  show "\<forall>b\<in>set (slice (allocated disk data) (16 * j) (16 * j + 16)). 0 < b \<and> b < 256"
  proof
    fix b assume "b \<in> set (slice (allocated disk data) (16 * j) (16 * j + 16))"
    then have "b \<in> set (allocated disk data)" using set_slice_subset by fastforce
    then show "0 < b \<and> b < 256" using allocated_range [of b disk data] by (simp add: geometry)
  qed
  have "groups (allocated disk data) 0 0 ! j \<in> set (groups (allocated disk data) 0 0)"
    using assms by (rule nth_mem)
  then show "j * 128 \<le> records_of data"
    unfolding g by (rule groups_records)
qed

lemma add_buffer_extent:
  assumes "length disk = DISK_SIZE" "j < length (claimed disk data)"
  shows "decode_extent (entry_at (add_buffer disk filename data) (claimed disk data ! j))
         = Inr (j, min (records_of data - j * 128) 128,
                slice (allocated disk data) (16 * j) (16 * j + 16))"
    and "status (add_buffer disk filename data) (claimed disk data ! j) = 0"
    and "blocks_of (entry_at (add_buffer disk filename data) (claimed disk data ! j))
         = slice (allocated disk data) (16 * j) (16 * j + 16)"
proof -
  obtain name ext where ne: "pad_83 (upper (basename filename)) = (name, ext)"
    by (cases "pad_83 (upper (basename filename))")
  have l: "length (encode name) = 8" "length (encode ext) = 3"
    using length_pad_83 [OF ne] by simp_all
  have j: "j < length (groups (allocated disk data) 0 0)"
    using assms(2) by (simp add: length_claimed)
  then have j2: "j < 2048" using length_groups_allocated [of disk data] by simp
  let ?blks = "slice (allocated disk data) (16 * j) (16 * j + 16)"
  let ?e = "mk_entry (encode name) (encode ext) (records_of data) j ?blks"
  have e: "entry_at (add_buffer disk filename data) (claimed disk data ! j) = ?e"
    using add_buffer_entry [OF assms(1) ne assms(2)] by (simp add: group_blocks(1) [OF j])
  have le: "length ?e = 32"
    using l group_blocks(2) [OF j] by (rule length_mk_entry)
  show "decode_extent (entry_at (add_buffer disk filename data) (claimed disk data ! j))
         = Inr (j, min (records_of data - j * 128) 128, ?blks)"
    using le extent_of_mk_entry [OF l group_blocks(2,3) [OF j] j2 group_blocks(4) [OF j]]
    by (simp add: e decode_extent_eq)
  have s: "claimed disk data ! j < DIR_ENTRIES"
    using assms(2) by (intro claimed_slot [of _ disk data] nth_mem)
  have "status (add_buffer disk filename data) (claimed disk data ! j)
      = entry_at (add_buffer disk filename data) (claimed disk data ! j) ! 0"
    using s by (simp add: entry_at_status length_add_buffer assms(1) geometry)
  then show "status (add_buffer disk filename data) (claimed disk data ! j) = 0"
    by (simp add: e mk_entry_status)
  show "blocks_of (entry_at (add_buffer disk filename data) (claimed disk data ! j)) = ?blks"
    using blocks_of_mk_entry [OF l group_blocks(2,3) [OF j]] by (simp add: e)
qed

subsection \<open>Adding to the blank image\<close>

lemma blocks_needed_le: "length data \<le> n * BLOCK_SIZE \<Longrightarrow> blocks_needed data \<le> n"
  by (simp add: blocks_needed_def geometry)

lemma add_blank:
  assumes "length data \<le> (TOTAL_BLOCKS - 2) * BLOCK_SIZE"
  shows "failure (add_file create_disk filename data) = None"
    and "stored (add_file create_disk filename data) = add_buffer create_disk filename data"
proof -
  have a: "blocks_needed data \<le> length (free_list create_disk)"
    using blocks_needed_le [OF assms] by (simp add: free_list_create_disk)
  have b: "length (groups (allocated create_disk data) 0 0) \<le> length (free_slots create_disk)"
    using length_groups_allocated [of create_disk data]
    by (simp add: free_slots_create_disk geometry)
  show "failure (add_file create_disk filename data) = None"
    and "stored (add_file create_disk filename data) = add_buffer create_disk filename data"
    using add_file_eq [OF length_create_disk a, of filename] b by simp_all
qed

lemma allocated_blank:
  "allocated create_disk data = [2..<2 + max (blocks_needed data) 1]"
  if "length data \<le> (TOTAL_BLOCKS - 2) * BLOCK_SIZE"
proof -
  have "2 + max (blocks_needed data) 1 \<le> TOTAL_BLOCKS"
    using blocks_needed_le [OF that] by (simp add: geometry)
  then have "take (max (blocks_needed data) 1) [2..<TOTAL_BLOCKS] = [2..<2 + max (blocks_needed data) 1]"
    by (rule take_upt)
  then show ?thesis by (simp only: allocated_def free_list_create_disk)
qed

section \<open>Frame of a successful add\<close>



section \<open>Extent splitting\<close>



subsection \<open>The referenced blocks after an add\<close>


lemma set_slice:
  "set (slice xs a b) = {xs ! p |p. a \<le> p \<and> p < b \<and> p < length xs}"
proof -
  have "set (slice xs a b) = {slice xs a b ! i |i. i < length (slice xs a b)}"
    by (simp add: set_conv_nth)
  also have "\<dots> = {xs ! (a + i) |i. i < b - a \<and> a + i < length xs}"
  proof (rule Collect_cong, rule iff_exI)
    fix x i
    show "(x = slice xs a b ! i \<and> i < length (slice xs a b))
      = (x = xs ! (a + i) \<and> i < b - a \<and> a + i < length xs)"
      by (auto simp: length_slice nth_slice)
  qed
  also have "\<dots> = {xs ! p |p. a \<le> p \<and> p < b \<and> p < length xs}"
  proof (intro equalityI subsetI)
    fix x assume "x \<in> {xs ! (a + i) |i. i < b - a \<and> a + i < length xs}"
    then obtain i where "x = xs ! (a + i)" "i < b - a" "a + i < length xs" by auto
    then show "x \<in> {xs ! p |p. a \<le> p \<and> p < b \<and> p < length xs}"
      by (intro CollectI exI [of _ "a + i"]) auto
  next
    fix x assume "x \<in> {xs ! p |p. a \<le> p \<and> p < b \<and> p < length xs}"
    then obtain p where "x = xs ! p" "a \<le> p" "p < b" "p < length xs" by auto
    then show "x \<in> {xs ! (a + i) |i. i < b - a \<and> a + i < length xs}"
      by (intro CollectI exI [of _ "p - a"]) auto
  qed
  finally show ?thesis .
qed



lemma slot_blocks_cong:
  assumes "DATA_OFFSET \<le> length disk" "DATA_OFFSET \<le> length disk'" "i < DIR_ENTRIES"
    "entry_at disk' i = entry_at disk i"
  shows "slot_blocks disk' i = slot_blocks disk i"
proof -
  have "status disk' i = status disk i"
    using entry_at_status [OF assms(1,3)] entry_at_status [OF assms(2,3)] assms(4) by simp
  then show ?thesis by (simp add: slot_blocks_def assms(4))
qed

lemma slot_blocks_unclaimed:
  assumes "length disk = DISK_SIZE" "i < DIR_ENTRIES" "i \<notin> set (claimed disk data)"
  shows "slot_blocks (add_buffer disk filename data) i = slot_blocks disk i"
  using assms add_buffer_other_entry [OF assms]
  by (intro slot_blocks_cong) (simp_all add: length_add_buffer geometry)

lemma slot_blocks_claimed:
  assumes "length disk = DISK_SIZE" "j < length (claimed disk data)"
  shows "slot_blocks (add_buffer disk filename data) (claimed disk data ! j)
         = slice (allocated disk data) (16 * j) (16 * j + 16)"
  using add_buffer_extent(2,3) [OF assms, of filename]
  by (simp add: slot_blocks_def occupied_def EMPTY_ENTRY_def)

lemma slot_blocks_subset:
  "i < DIR_ENTRIES \<Longrightarrow> set (slot_blocks disk i) \<subseteq> set (used_blocks disk)"
  by (auto simp: used_blocks_def)



subsection \<open>Free slots and free blocks after an add\<close>

lemma filter_not_in_take:
  assumes "distinct xs"
  shows "filter (\<lambda>x. x \<notin> set (take k xs)) xs = drop k xs"
proof -
  have dj: "set (take k xs) \<inter> set (drop k xs) = {}"
    using assms by (rule set_take_disj_set_drop_if_distinct) simp
  have "filter (\<lambda>x. x \<notin> set (take k xs)) (take k xs @ drop k xs)
      = filter (\<lambda>x. x \<notin> set (take k xs)) (take k xs) @ filter (\<lambda>x. x \<notin> set (take k xs)) (drop k xs)"
    by (simp only: filter_append)
  also have "filter (\<lambda>x. x \<notin> set (take k xs)) (take k xs) = []" by simp
  also have "filter (\<lambda>x. x \<notin> set (take k xs)) (drop k xs) = drop k xs"
    using dj by (auto simp: filter_id_conv)
  finally show ?thesis by simp
qed

lemma free_slot_status: "s \<in> set (free_slots disk) \<Longrightarrow> status disk s = EMPTY_ENTRY"
  by (simp add: free_slots_def)

lemma claimed_free: "s \<in> set (claimed disk data) \<Longrightarrow> s \<in> set (free_slots disk)"
  by (auto simp: claimed_def dest: in_set_takeD)

lemma status_add_buffer:
  assumes "length disk = DISK_SIZE" "i < DIR_ENTRIES"
  shows "status (add_buffer disk filename data) i
         = (if i \<in> set (claimed disk data) then 0 else status disk i)"
proof (cases "i \<in> set (claimed disk data)")
  case True
  then obtain j where "j < length (claimed disk data)" "claimed disk data ! j = i"
    by (auto simp: in_set_conv_nth)
  then show ?thesis
    using add_buffer_extent(2) [OF assms(1), of j data filename] True by auto
next
  case False
  have "entry_at (add_buffer disk filename data) i ! 0 = entry_at disk i ! 0"
    using add_buffer_other_entry [OF assms False] by simp
  then show ?thesis
    using False assms by (simp add: entry_at_status length_add_buffer geometry)
qed

lemma free_slots_add_buffer:
  assumes "length disk = DISK_SIZE"
  shows "free_slots (add_buffer disk filename data)
         = drop (length (groups (allocated disk data) 0 0)) (free_slots disk)"
proof -
  have "free_slots (add_buffer disk filename data)
      = filter (\<lambda>i. i \<notin> set (claimed disk data) \<and> status disk i = EMPTY_ENTRY) [0..<DIR_ENTRIES]"
    unfolding free_slots_def
    by (intro filter_cong refl) (auto simp: status_add_buffer [OF assms] EMPTY_ENTRY_def)
  also have "\<dots> = filter (\<lambda>i. i \<notin> set (claimed disk data)) (free_slots disk)"
    by (simp add: free_slots_def conj_commute)
  also have "\<dots> = drop (length (groups (allocated disk data) 0 0)) (free_slots disk)"
    unfolding claimed_def using distinct_free_slots by (rule filter_not_in_take)
  finally show ?thesis .
qed

lemma used_blocks_add_buffer:
  assumes "length disk = DISK_SIZE"
    "length (groups (allocated disk data) 0 0) \<le> length (free_slots disk)"
  shows "set (used_blocks (add_buffer disk filename data))
         = set (used_blocks disk) \<union> set (allocated disk data)"
proof (intro equalityI subsetI)
  let ?B = "add_buffer disk filename data"
  let ?cl = "claimed disk data"
  let ?g = "\<lambda>j. slice (allocated disk data) (16 * j) (16 * j + 16)"
  fix b assume "b \<in> set (used_blocks ?B)"
  then obtain x where x: "x < DIR_ENTRIES" "b \<in> set (slot_blocks ?B x)"
    by (auto simp: used_blocks_def)
  show "b \<in> set (used_blocks disk) \<union> set (allocated disk data)"
  proof (cases "x \<in> set ?cl")
    case True
    then obtain j where "j < length ?cl" "?cl ! j = x" by (auto simp: in_set_conv_nth)
    then have "b \<in> set (?g j)"
      using slot_blocks_claimed [OF assms(1), of j data filename] x(2) by auto
    then show ?thesis using set_slice_subset [of "allocated disk data"] by auto
  next
    case False
    then show ?thesis
      using slot_blocks_unclaimed [OF assms(1) x(1) False, of filename] x
        slot_blocks_subset [OF x(1), of disk] by auto
  qed
next
  let ?B = "add_buffer disk filename data"
  let ?cl = "claimed disk data"
  fix b assume "b \<in> set (used_blocks disk) \<union> set (allocated disk data)"
  then show "b \<in> set (used_blocks ?B)"
  proof
    assume "b \<in> set (used_blocks disk)"
    then obtain x where x: "x < DIR_ENTRIES" "b \<in> set (slot_blocks disk x)"
      by (auto simp: used_blocks_def)
    have "x \<notin> set ?cl"
    proof
      assume "x \<in> set ?cl"
      then have "status disk x = EMPTY_ENTRY" by (intro free_slot_status claimed_free)
      then show False using x(2) by (simp add: slot_blocks_def occupied_def)
    qed
    then show ?thesis
      using slot_blocks_unclaimed [OF assms(1) x(1), of data filename] x
        slot_blocks_subset [OF x(1), of ?B] by auto
  next
    assume "b \<in> set (allocated disk data)"
    then obtain p where p: "p < length (allocated disk data)" "allocated disk data ! p = b"
      by (auto simp: in_set_conv_nth)
    define j where "j = p div 16"
    have "j < length (groups (allocated disk data) 0 0)"
      using p(1) by (simp add: length_groups j_def)
    then have j: "j < length ?cl" using assms(2) by (simp add: length_claimed)
    have "16 * j \<le> p" "p < 16 * j + 16" by (simp_all add: j_def)
    then have "b \<in> set (slice (allocated disk data) (16 * j) (16 * j + 16))"
      unfolding set_slice using p by auto
    then have "b \<in> set (slot_blocks ?B (?cl ! j))"
      using slot_blocks_claimed [OF assms(1) j, of filename] by simp
    moreover have "?cl ! j < DIR_ENTRIES" using j by (intro claimed_slot [of _ disk data] nth_mem)
    ultimately show ?thesis using slot_blocks_subset [of "?cl ! j" ?B] by auto
  qed
qed

lemma free_list_add_buffer:
  assumes "length disk = DISK_SIZE"
    "length (groups (allocated disk data) 0 0) \<le> length (free_slots disk)"
  shows "free_list (add_buffer disk filename data)
         = drop (max (blocks_needed data) 1) (free_list disk)"
proof -
  have "free_list (add_buffer disk filename data)
      = filter (\<lambda>b. b \<notin> set (used_blocks disk) \<and> b \<notin> set (allocated disk data)) [2..<TOTAL_BLOCKS]"
    unfolding free_list_def used_blocks_add_buffer [OF assms] by simp
  also have "\<dots> = filter (\<lambda>b. b \<notin> set (allocated disk data)) (free_list disk)"
    by (simp add: free_list_def)
  also have "\<dots> = drop (max (blocks_needed data) 1) (free_list disk)"
    unfolding allocated_def using distinct_free_list by (rule filter_not_in_take)
  finally show ?thesis .
qed

subsection \<open>Filling the directory with one-byte files\<close>

lemma fill_directory_Suc:
  "fill_directory (Suc n) = stored (add_file (fill_directory n) ''A.TXT'' [0x41])"
  by (simp add: fill_directory_def)

lemma fill_directory_state:
  "n \<le> DIR_ENTRIES \<Longrightarrow>
   length (fill_directory n) = DISK_SIZE
   \<and> free_slots (fill_directory n) = drop n [0..<DIR_ENTRIES]
   \<and> free_list (fill_directory n) = drop n [2..<TOTAL_BLOCKS]"
proof (induction n)
  case 0
  then show ?case
    by (simp add: fill_directory_def length_create_disk free_slots_create_disk free_list_create_disk)
next
  case (Suc n)
  let ?d = "fill_directory n"
  let ?data = "[0x41::byte]"
  from Suc have ih: "length ?d = DISK_SIZE" "free_slots ?d = drop n [0..<DIR_ENTRIES]"
    "free_list ?d = drop n [2..<TOTAL_BLOCKS]" and n: "n < DIR_ENTRIES"
    by simp_all
  have bn: "blocks_needed ?data = 1" by (simp add: blocks_needed_def geometry)
  have la: "length (allocated ?d ?data) = 1"
    using n by (simp add: allocated_def bn ih(3) geometry)
  have lg: "length (groups (allocated ?d ?data) 0 0) = 1"
    by (simp add: length_groups la)
  have enough: "blocks_needed ?data \<le> length (free_list ?d)"
    using n by (simp add: bn ih(3) geometry)
  have slots: "length (groups (allocated ?d ?data) 0 0) \<le> length (free_slots ?d)"
    using n by (simp add: lg ih(2))
  have st: "fill_directory (Suc n) = add_buffer ?d ''A.TXT'' ?data"
    using add_file_eq [OF ih(1) enough, of "''A.TXT''"] slots
    by (simp add: fill_directory_Suc)
  show ?case
    unfolding st
    by (simp add: length_add_buffer [OF ih(1)] free_slots_add_buffer [OF ih(1)]
        free_list_add_buffer [OF ih(1) slots] lg bn ih(2,3))
qed



section \<open>Allocation disjointness\<close>



section \<open>A failed add\<close>

text \<open>Claim C2, as amended: add\_file checks only the number of free blocks up front. When
  the directory runs out of free slots before every group of 16 blocks has its entry,
  it fails with "No free directory entries" in the middle of the loop, after the data
  blocks and the entries of the earlier groups were written into the in-memory buffer:
  every slot that was free is then occupied in the buffer. The buffer is not written
  back: whenever add\_file fails, the stored image is the one it started from.\<close>

theorem failed_add_keeps_stored_image:
  "(failure (add_file disk filename data) \<noteq> None \<longrightarrow>
      stored (add_file disk filename data) = disk)
   \<and> (length disk = DISK_SIZE \<and> is_ascii filename
       \<and> find_free_blocks disk (blocks_needed data) = Inr free
       \<and> blocks_needed data \<le> length free
       \<and> length (free_slots disk) < (length free + 15) div 16 \<longrightarrow>
      failure (add_file disk filename data) = Some DirectoryFull
      \<and> (\<forall>j. j < length (free_slots disk) \<longrightarrow>
            status disk (free_slots disk ! j) = EMPTY_ENTRY
            \<and> status (buffer (add_file disk filename data)) (free_slots disk ! j) = 0))"
proof (intro conjI impI)
  assume "failure (add_file disk filename data) \<noteq> None"
  then show "stored (add_file disk filename data) = disk"
    by (simp add: add_file_def Let_def split: sum.splits prod.splits option.splits if_splits)
next
  assume a: "length disk = DISK_SIZE \<and> is_ascii filename
       \<and> find_free_blocks disk (blocks_needed data) = Inr free
       \<and> blocks_needed data \<le> length free
       \<and> length (free_slots disk) < (length free + 15) div 16"
  then have len: "length disk = DISK_SIZE" by simp
  have "find_free_blocks disk (blocks_needed data) = Inr (allocated disk data)"
    using len by (simp add: find_free_blocks_eq geometry allocated_def)
  with a have free: "free = allocated disk data" by simp
  have enough: "blocks_needed data \<le> length (free_list disk)"
    using a by (simp add: free allocated_def)
  have short: "\<not> length (groups (allocated disk data) 0 0) \<le> length (free_slots disk)"
    using a by (simp add: free length_groups)
  have r: "add_file disk filename data
      = \<lparr>failure = Some DirectoryFull, buffer = add_buffer disk filename data, stored = disk\<rparr>"
    using add_file_eq [OF len enough, of filename] short by simp
  show "failure (add_file disk filename data) = Some DirectoryFull" by (simp add: r)
  show "\<forall>j. j < length (free_slots disk) \<longrightarrow>
          status disk (free_slots disk ! j) = EMPTY_ENTRY
          \<and> status (buffer (add_file disk filename data)) (free_slots disk ! j) = 0"
  proof (intro allI impI)
    fix j assume j: "j < length (free_slots disk)"
    then have jc: "j < length (claimed disk data)" using short by (simp add: length_claimed)
    have "status disk (free_slots disk ! j) = EMPTY_ENTRY"
      using j by (intro free_slot_status nth_mem)
    moreover have "status (add_buffer disk filename data) (free_slots disk ! j) = 0"
      using add_buffer_extent(2) [OF len jc, of filename] jc by (simp add: claimed_nth)
    ultimately show "status disk (free_slots disk ! j) = EMPTY_ENTRY
        \<and> status (buffer (add_file disk filename data)) (free_slots disk ! j) = 0"
      by (simp add: r)
  qed
qed

lemma one_slot_left:
  "length (fill_directory 63) = DISK_SIZE"
  "free_slots (fill_directory 63) = [63]"
  "free_list (fill_directory 63) = [65..<TOTAL_BLOCKS]"
proof -
  have "drop 63 [0..<DIR_ENTRIES] = [63]" by (simp add: geometry drop_upt)
  moreover have "drop 63 [2..<TOTAL_BLOCKS] = [65..<TOTAL_BLOCKS]" by (simp only: drop_upt) simp
  ultimately show "length (fill_directory 63) = DISK_SIZE"
    "free_slots (fill_directory 63) = [63]"
    "free_list (fill_directory 63) = [65..<TOTAL_BLOCKS]"
    using fill_directory_state [of 63] by (simp_all add: geometry)
qed

lemma big_file:
  "blocks_needed (replicate 16385 (0x41::byte)) = 17"
  "records_of (replicate 16385 (0x41::byte)) = 129"
  "allocated (fill_directory 63) (replicate 16385 (0x41::byte)) = [65..<82]"
proof -
  show bn: "blocks_needed (replicate 16385 (0x41::byte)) = 17"
    by (simp add: blocks_needed_def geometry)
  show "records_of (replicate 16385 (0x41::byte)) = 129"
    by (simp add: records_of_def geometry)
  have "take 17 [65..<TOTAL_BLOCKS] = [65..<65 + 17]"
    by (rule take_upt) (simp add: geometry)
  then show "allocated (fill_directory 63) (replicate 16385 (0x41::byte)) = [65..<82]"
    by (simp add: allocated_def bn one_slot_left(3))
qed

theorem failed_add_keeps_stored_image_witness:
  "failure (add_file (fill_directory 63) ''BIG.BIN'' (replicate 16385 0x41)) \<noteq> None
   \<and> stored (add_file (fill_directory 63) ''BIG.BIN'' (replicate 16385 0x41)) = fill_directory 63
   \<and> length (fill_directory 63) = DISK_SIZE \<and> is_ascii ''BIG.BIN''
   \<and> find_free_blocks (fill_directory 63) (blocks_needed (replicate 16385 0x41)) = Inr [65..<82]
   \<and> blocks_needed (replicate 16385 (0x41::byte)) \<le> length [65..<82]
   \<and> length (free_slots (fill_directory 63)) < (length [65..<82] + 15) div 16
   \<and> failure (add_file (fill_directory 63) ''BIG.BIN'' (replicate 16385 0x41)) = Some DirectoryFull
   \<and> (0::nat) < length (free_slots (fill_directory 63))
   \<and> status (fill_directory 63) (free_slots (fill_directory 63) ! 0) = EMPTY_ENTRY
   \<and> status (buffer (add_file (fill_directory 63) ''BIG.BIN'' (replicate 16385 0x41)))
        (free_slots (fill_directory 63) ! 0) = 0"
proof -
  let ?D = "fill_directory 63" and ?X = "replicate 16385 (0x41::byte)"
  have h1: "length ?D = DISK_SIZE" by (rule one_slot_left)
  have h2: "is_ascii ''BIG.BIN''" by (simp add: is_ascii_def)
  have h3: "find_free_blocks ?D (blocks_needed ?X) = Inr [65..<82]"
    using big_file(3) by (simp add: find_free_blocks_eq h1 geometry allocated_def)
  have h4: "blocks_needed ?X \<le> length [65..<82]" by (simp add: big_file(1))
  have h5: "length (free_slots ?D) < (length [65..<82] + 15) div 16"
    by (simp add: one_slot_left(2))
  have h6: "(0::nat) < length (free_slots ?D)" by (simp add: one_slot_left(2))
  note t = failed_add_keeps_stored_image [of ?D "''BIG.BIN''" ?X "[65..<82]"]
  from t h1 h2 h3 h4 h5 have f: "failure (add_file ?D ''BIG.BIN'' ?X) = Some DirectoryFull"
    by blast
  from t f have s: "stored (add_file ?D ''BIG.BIN'' ?X) = ?D" by simp
  from t h1 h2 h3 h4 h5 h6
  have "status ?D (free_slots ?D ! 0) = EMPTY_ENTRY
      \<and> status (buffer (add_file ?D ''BIG.BIN'' ?X)) (free_slots ?D ! 0) = 0"
    by blast
  then show ?thesis
    using f s h1 h2 h3 h4 h5 h6 by simp
qed

text \<open>The claim as stated fails: with one free directory slot left and a file of 17
  blocks, add\_file writes the entry of extent 0 into the last free slot of its buffer
  and only then fails, for want of a slot for extent 1.\<close>

theorem add_fails_mid_sequence_counterexample:
  "failure (add_file (fill_directory 63) ''BIG.BIN'' (replicate 16385 0x41)) = Some DirectoryFull
   \<and> status (fill_directory 63) 63 = EMPTY_ENTRY
   \<and> status (buffer (add_file (fill_directory 63) ''BIG.BIN'' (replicate 16385 0x41))) 63 = 0
   \<and> decode_extent
        (entry_at (buffer (add_file (fill_directory 63) ''BIG.BIN'' (replicate 16385 0x41))) 63)
       = Inr (0, 128, [65..<81])
   \<and> buffer (add_file (fill_directory 63) ''BIG.BIN'' (replicate 16385 0x41)) \<noteq> fill_directory 63"
proof -
  let ?D = "fill_directory 63" and ?X = "replicate 16385 (0x41::byte)"
  let ?B = "add_buffer ?D ''BIG.BIN'' ?X"
  have len: "length ?D = DISK_SIZE" by (rule one_slot_left)
  have enough: "blocks_needed ?X \<le> length (free_list ?D)"
    by (simp add: big_file(1) one_slot_left(3) geometry)
  have lg: "length (groups (allocated ?D ?X) 0 0) = 2"
    by (simp add: length_groups big_file(3))
  have r: "add_file ?D ''BIG.BIN'' ?X
      = \<lparr>failure = Some DirectoryFull, buffer = ?B, stored = ?D\<rparr>"
    using add_file_eq [OF len enough, of "''BIG.BIN''"] by (simp add: lg one_slot_left(2))
  have cl: "claimed ?D ?X = [63]" by (simp add: claimed_def lg one_slot_left(2))
  have e: "status ?D 63 = EMPTY_ENTRY"
    using free_slot_status [of 63 ?D] by (simp add: one_slot_left(2))
  have "slice [65..<82] 0 16 = take 16 [65..<65 + 17]" by (simp add: slice_def)
  also have "\<dots> = [65..<65 + 16]" by (rule take_upt) simp
  finally have sl: "slice [65..<82] 0 16 = [65..<81]" by simp
  have s: "status ?B 63 = 0"
    using add_buffer_extent(2) [OF len, of 0 ?X "''BIG.BIN''"] by (simp add: cl)
  have d: "decode_extent (entry_at ?B 63) = Inr (0, 128, [65..<81])"
    using add_buffer_extent(1) [OF len, of 0 ?X "''BIG.BIN''"] sl
    by (simp add: cl big_file)
  have "?B \<noteq> ?D" using s e by (auto simp: EMPTY_ENTRY_def)
  then show ?thesis using e s d by (simp add: r)
qed

subsection \<open>The directory scan of extract\_file\<close>

lemma find_extents_eq:
  "DATA_OFFSET \<le> length disk \<Longrightarrow> \<forall>i\<in>set idxs. i < DIR_ENTRIES \<Longrightarrow>
   find_extents disk tname text idxs extents =
     Inr (extents @ map (\<lambda>i. extent_of (entry_at disk i)) (filter (matches disk tname text) idxs))"
proof (induction idxs arbitrary: extents)
  case Nil
  then show ?case by simp
next
  case (Cons i idxs)
  have i: "i < DIR_ENTRIES" using Cons.prems by simp
  have e: "slice disk (DIR_OFFSET + i * ENTRY_SIZE) (DIR_OFFSET + i * ENTRY_SIZE + ENTRY_SIZE) = entry_at disk i"
    by (simp add: entry_at_def slot_offset_def)
  have len: "length (entry_at disk i) = 32" using Cons.prems i by (simp add: length_entry_at)
  have g: "getitem (entry_at disk i) 0 = Inr (status disk i)"
    using len entry_at_status [OF Cons.prems(1) i] by (simp add: getitem_ok)
  have c: "(status disk i = EMPTY_ENTRY \<or> status disk i > 15) = (\<not> occupied (status disk i))"
    by (auto simp: occupied_def)
  have d: "decode_extent (entry_at disk i) = Inr (extent_of (entry_at disk i))"
    using len by (simp add: decode_extent_eq)
  have ih: "\<And>acc. find_extents disk tname text idxs acc =
      Inr (acc @ map (\<lambda>i. extent_of (entry_at disk i)) (filter (matches disk tname text) idxs))"
    using Cons.IH Cons.prems by simp
  show ?case
  proof (cases "occupied (status disk i)")
    case False
    then have "\<not> matches disk tname text i" by (simp add: matches_def)
    then show ?thesis using False by (simp add: e g c ih)
  next
    case True
    show ?thesis
    proof (cases "decode_ascii (slice (entry_at disk i) 1 9) = tname
        \<and> decode_ascii (slice (entry_at disk i) 9 12) = text")
      case True2: True
      then have "matches disk tname text i" using True by (simp add: matches_def)
      then show ?thesis using True True2 by (simp add: e g c d ih Let_def)
    next
      case False
      then have "\<not> matches disk tname text i" by (auto simp: matches_def)
      then show ?thesis using True False by (auto simp: e g c ih Let_def)
    qed
  qed
qed

lemma fold_extend: "fold (\<lambda>x acc. acc @ f x) xs a = a @ concat (map f xs)"
  by (induction xs arbitrary: a) auto

lemma read_blocks_fold:
  "fold (\<lambda>(extent_num, records, blocks) data.
           fold (\<lambda>block data.
                   data @ slice disk (block_offset block) (block_offset block + BLOCK_SIZE))
             blocks data)
     extents acc
   = acc @ concat (map (\<lambda>(extent_num, records, blocks). concat (map (block_at disk) blocks)) extents)"
proof (induction extents arbitrary: acc)
  case Nil
  then show ?case by simp
next
  case (Cons x extents)
  obtain extent_num records blocks where x: "x = (extent_num, records, blocks)" by (cases x)
  have "fold (\<lambda>block data. data @ slice disk (block_offset block) (block_offset block + BLOCK_SIZE))
      blocks acc = acc @ concat (map (block_at disk) blocks)"
    unfolding block_at_def by (rule fold_extend)
  then show ?case by (simp add: x Cons.IH)
qed

lemma read_blocks_eq:
  "read_blocks disk extents
   = concat (map (\<lambda>(extent_num, records, blocks). concat (map (block_at disk) blocks)) extents)"
  unfolding read_blocks_def by (simp only: read_blocks_fold append_Nil)

subsection \<open>Stripping the padding\<close>

lemma strip_eof_eq: "strip_eof data = without_trailing_eof data"
proof (induction data rule: strip_eof.induct)
  case (1 data)
  show ?case
  proof (cases "data \<noteq> [] \<and> last data = 0x1A")
    case True
    then obtain ys where ys: "data = ys @ [0x1A]"
      using append_butlast_last_id [of data] by metis
    then have "without_trailing_eof data = without_trailing_eof (butlast data)"
      by (simp add: without_trailing_eof_def)
    moreover have "strip_eof data = strip_eof (butlast data)"
      using True by (subst strip_eof.simps) simp
    ultimately show ?thesis using "1.IH" [OF True] by simp
  next
    case False
    then have s: "strip_eof data = data" by (subst strip_eof.simps) auto
    show ?thesis
    proof (cases "data = []")
      case True
      then show ?thesis using s by (simp add: without_trailing_eof_def)
    next
      case False2: False
      with False have "last data \<noteq> 0x1A" by simp
      then have "hd (rev data) \<noteq> 0x1A" using False2 by (simp add: hd_rev)
      then have "dropWhile (\<lambda>b. b = 0x1A) (rev data) = rev data"
        using False2 by (cases "rev data") auto
      then show ?thesis using s by (simp add: without_trailing_eof_def)
    qed
  qed
qed

lemma without_trailing_eof_padded:
  "without_trailing_eof (d @ replicate m 0x1A) = without_trailing_eof d"
proof -
  have "dropWhile (\<lambda>b. b = 0x1A) (replicate m (0x1A::byte) @ xs) = dropWhile (\<lambda>b. b = 0x1A) xs" for xs
    by (induction m) auto
  then show ?thesis by (simp add: without_trailing_eof_def)
qed

subsection \<open>The chunks, put together\<close>

lemma chunk_of_eq:
  "chunk_of data i = take BLOCK_SIZE (drop (i * BLOCK_SIZE) data)
     @ replicate (BLOCK_SIZE - (length data - i * BLOCK_SIZE)) 0x1A"
proof -
  have "slice data (i * BLOCK_SIZE) (min (i * BLOCK_SIZE + BLOCK_SIZE) (length data))
      = take BLOCK_SIZE (drop (i * BLOCK_SIZE) data)"
    by (simp add: slice_def min_def take_all_iff)
  moreover have "length (take BLOCK_SIZE (drop (i * BLOCK_SIZE) data))
      = min BLOCK_SIZE (length data - i * BLOCK_SIZE)"
    by simp
  ultimately show ?thesis
    by (simp add: chunk_of_def Let_def min_def)
qed

lemma concat_chunks:
  "concat (map (chunk_of data) [0..<n])
   = take (n * BLOCK_SIZE) data @ replicate (n * BLOCK_SIZE - length data) 0x1A"
proof (induction n)
  case 0
  then show ?case by simp
next
  case (Suc n)
  have "Suc n * BLOCK_SIZE = n * BLOCK_SIZE + BLOCK_SIZE" by simp
  then have t: "take (Suc n * BLOCK_SIZE) data
      = take (n * BLOCK_SIZE) data @ take BLOCK_SIZE (drop (n * BLOCK_SIZE) data)"
    by (simp only: take_add)
  show ?case
  proof (cases "length data \<le> n * BLOCK_SIZE")
    case True
    then have c: "chunk_of data n = replicate BLOCK_SIZE 0x1A" by (simp add: chunk_of_eq)
    have d: "Suc n * BLOCK_SIZE - length data = (n * BLOCK_SIZE - length data) + BLOCK_SIZE"
      using True by simp
    have tk: "take (Suc n * BLOCK_SIZE) data = data" "take (n * BLOCK_SIZE) data = data"
      using True by simp_all
    have "concat (map (chunk_of data) [0..<Suc n])
        = concat (map (chunk_of data) [0..<n]) @ chunk_of data n"
      by simp
    also have "\<dots> = data @ replicate (n * BLOCK_SIZE - length data) 0x1A @ replicate BLOCK_SIZE 0x1A"
      by (simp only: Suc.IH tk c append_assoc)
    also have "\<dots> = data @ replicate (Suc n * BLOCK_SIZE - length data) 0x1A"
      by (simp only: d replicate_add)
    finally show ?thesis by (simp only: tk)
  next
    case False
    then have ih: "concat (map (chunk_of data) [0..<n]) = take (n * BLOCK_SIZE) data"
      using Suc.IH by simp
    have d: "BLOCK_SIZE - (length data - n * BLOCK_SIZE) = Suc n * BLOCK_SIZE - length data"
      using False by simp
    have "concat (map (chunk_of data) [0..<Suc n])
        = concat (map (chunk_of data) [0..<n]) @ chunk_of data n"
      by simp
    also have "\<dots> = (take (n * BLOCK_SIZE) data @ take BLOCK_SIZE (drop (n * BLOCK_SIZE) data))
        @ replicate (BLOCK_SIZE - (length data - n * BLOCK_SIZE)) 0x1A"
      by (simp only: ih chunk_of_eq [of data n] append_assoc)
    finally show ?thesis by (simp only: t [symmetric] d)
  qed
qed

subsection \<open>ASCII names\<close>

lemma is_ascii_iff: "is_ascii s \<longleftrightarrow> (\<forall>c\<in>set s. (of_char c :: nat) < 128)"
  by (simp add: is_ascii_def list_all_iff)

lemma upper_char_ascii: "(of_char c :: nat) < 128 \<Longrightarrow> (of_char (upper_char c) :: nat) < 128"
  by (auto simp: upper_char_def Let_def)

lemma is_ascii_upper: "is_ascii s \<Longrightarrow> is_ascii (upper s)"
  by (auto simp: is_ascii_iff upper_def upper_char_ascii)

lemma is_ascii_basename: "is_ascii s \<Longrightarrow> is_ascii (basename s)"
  by (auto simp: is_ascii_iff basename_def dest: set_takeWhileD)

lemma is_ascii_split_ext:
  assumes "is_ascii s" "split_ext s = (n, e)"
  shows "is_ascii n \<and> is_ascii e"
proof (cases "CHR ''.'' \<in> set s")
  case True
  then have n: "n = rev (tl (dropWhile (\<lambda>c. c \<noteq> CHR ''.'') (rev s)))"
    and e: "e = rev (takeWhile (\<lambda>c. c \<noteq> CHR ''.'') (rev s))"
    using assms(2) by (simp_all add: split_ext_def)
  have "set (tl xs) \<subseteq> set xs" for xs :: string by (cases xs) auto
  then have "set n \<subseteq> set s"
    unfolding n using set_dropWhileD [of _ "\<lambda>c. c \<noteq> CHR ''.''" "rev s"]
    by fastforce
  moreover have "set e \<subseteq> set s"
    unfolding e by (auto dest: set_takeWhileD)
  ultimately show ?thesis using assms(1) by (auto simp: is_ascii_iff)
next
  case False
  then show ?thesis using assms by (auto simp: split_ext_def is_ascii_iff)
qed

lemma is_ascii_ljust: "is_ascii s \<Longrightarrow> is_ascii (ljust (take k s) n)"
  by (auto simp: is_ascii_iff ljust_def dest: in_set_takeD)

lemma is_ascii_pad_83:
  assumes "is_ascii s" "pad_83 s = (name, ext)"
  shows "is_ascii name \<and> is_ascii ext"
proof -
  obtain n e where ne: "split_ext s = (n, e)" by (cases "split_ext s")
  from is_ascii_split_ext [OF assms(1) ne] assms(2) show ?thesis
    by (auto simp: pad_83_def ne is_ascii_ljust)
qed

lemma unat_of_char: "unat (of_char c :: byte) = (of_char c :: nat)"
proof -
  have "(of_char c :: byte) = word_of_nat (of_char c)" by (simp add: of_nat_of_char)
  moreover have "(of_char c :: nat) < 256" by simp
  ultimately show ?thesis by (simp only: unat_of_nat) simp
qed

lemma decode_encode: "is_ascii s \<Longrightarrow> decode_ascii (encode s) = codepoints s"
  by (simp add: decode_ascii_def encode_def codepoints_def is_ascii_iff unat_of_char)

subsection \<open>The entries of the added file match its name\<close>

lemma extent_of_claimed:
  assumes "length disk = DISK_SIZE" "j < length (claimed disk data)"
  shows "extent_of (entry_at (add_buffer disk filename data) (claimed disk data ! j))
         = (j, min (records_of data - j * 128) 128,
            slice (allocated disk data) (16 * j) (16 * j + 16))"
proof -
  have "claimed disk data ! j < DIR_ENTRIES"
    using assms(2) by (intro claimed_slot [of _ disk data] nth_mem)
  then have "length (entry_at (add_buffer disk filename data) (claimed disk data ! j)) = 32"
    using assms(1) by (simp add: length_entry_at length_add_buffer geometry)
  then show ?thesis
    using add_buffer_extent(1) [OF assms, of filename] by (simp add: decode_extent_eq)
qed

lemma matches_claimed:
  assumes "length disk = DISK_SIZE" "is_ascii filename"
    "pad_83 (upper (basename filename)) = (name, ext)" "j < length (claimed disk data)"
  shows "matches (add_buffer disk filename data) (codepoints name) (codepoints ext)
           (claimed disk data ! j)"
proof -
  have a: "is_ascii name" "is_ascii ext"
    using is_ascii_pad_83 [OF is_ascii_upper [OF is_ascii_basename [OF assms(2)]] assms(3)]
    by simp_all
  have l: "length (encode name) = 8" "length (encode ext) = 3"
    using length_pad_83 [OF assms(3)] by simp_all
  let ?e = "entry_at (add_buffer disk filename data) (claimed disk data ! j)"
  have "slice ?e 1 9 = encode name" "slice ?e 9 12 = encode ext"
    unfolding add_buffer_entry [OF assms(1,3,4)] by (rule mk_entry_parts(4,5) [OF l])+
  then have "decode_ascii (slice ?e 1 9) = codepoints name"
    "decode_ascii (slice ?e 9 12) = codepoints ext"
    using a by (simp_all only: decode_encode)
  then show ?thesis
    unfolding matches_def
    using add_buffer_extent(2) [OF assms(1,4), of filename]
    by (simp add: occupied_def EMPTY_ENTRY_def)
qed

subsection \<open>extract\_file on an image of full length\<close>

lemma extract_file_eq:
  assumes "length disk = DISK_SIZE" "pad_83 (upper filename) = (tname, text)"
    "found = map (\<lambda>i. extent_of (entry_at disk i))
               (filter (matches disk (codepoints tname) (codepoints text)) [0..<DIR_ENTRIES])"
  shows "extract_file disk filename =
     (if found = [] then Inl NotFound
      else Inr (without_trailing_eof
             (take (((length found - 1) * 128 + fst (snd (last (sort_key fst found)))) * SECTOR_SIZE)
                (read_blocks disk (sort_key fst found)))))"
proof -
  have "find_extents disk (codepoints tname) (codepoints text) [0..<DIR_ENTRIES] [] = Inr found"
    using assms(1) by (simp add: find_extents_eq geometry assms(3))
  then show ?thesis
    by (simp add: extract_file_def assms(2) Let_def strip_eof_eq)
qed

subsection \<open>Groups and blocks, put together\<close>

lemma concat_groups: "concat (map snd (groups free extent bi)) = drop bi free"
proof (induction free extent bi rule: groups.induct)
  case (1 free extent bi)
  show ?case
  proof (cases "bi < length free")
    case True
    have "take 16 (drop bi free) @ drop (bi + 16) free = drop bi free"
      using append_take_drop_id [of 16 "drop bi free"] by (simp add: add.commute)
    then show ?thesis
      using True "1.IH" [OF True] by (simp add: groups_unfold slice_def)
  next
    case False
    then show ?thesis by (simp add: groups_done)
  qed
qed

lemma groups_as_map:
  "groups free 0 0 = map (\<lambda>j. (j, slice free (16 * j) (16 * j + 16))) [0..<length (groups free 0 0)]"
  by (rule nth_equalityI) (simp_all add: nth_groups)

lemma concat_group_slices:
  "concat (map (\<lambda>j. slice free (16 * j) (16 * j + 16)) [0..<length (groups free 0 0)]) = free"
proof -
  have "concat (map snd (groups free 0 0)) = free" by (simp add: concat_groups)
  then show ?thesis by (subst (asm) groups_as_map) (simp add: comp_def)
qed

lemma blocks_of_allocated:
  assumes "length disk = DISK_SIZE"
  shows "map (block_at (add_buffer disk filename data)) (allocated disk data)
         = map (chunk_of data) [0..<length (allocated disk data)]"
  by (rule nth_equalityI) (simp_all add: add_buffer_block [OF assms])

lemma filter_upt_prefix:
  assumes "k \<le> n" "\<And>i. i < k \<Longrightarrow> P i" "\<And>i. k \<le> i \<Longrightarrow> i < n \<Longrightarrow> \<not> P i"
  shows "filter P [0..<n] = [0..<k]"
proof -
  have "[0..<k + (n - k)] = [0..<k] @ [k..<k + (n - k)]" by (rule upt_add_eq_append) simp
  then have "[0..<n] = [0..<k] @ [k..<n]" using assms(1) by simp
  moreover have "filter P [0..<k] = [0..<k]" using assms(2) by (simp add: filter_id_conv)
  moreover have "filter P [k..<n] = []" using assms(3) by (simp add: filter_empty_conv)
  ultimately show ?thesis by simp
qed

subsection \<open>Sizes\<close>

lemma records_le_blocks: "(len::nat) \<le> N * 1024 \<Longrightarrow> (len + 127) div 128 \<le> N * 8"
proof -
  assume "len \<le> N * 1024"
  then have "(len + 127) div 128 \<le> (N * 1024 + 127) div 128" by (intro div_le_mono) simp
  also have "(N * 1024 + 127) div 128 = N * 8" by simp
  finally show ?thesis .
qed

lemma sizes:
  fixes len n r N k :: nat
  assumes "n = (len + 1023) div 1024" "r = (len + 127) div 128" "N = max n 1"
    "k = (N + 15) div 16"
  shows "len \<le> N * 1024" "len \<le> r * 128" "r * 128 \<le> N * 1024"
    "(k - 1) * 128 + min (r - (k - 1) * 128) 128 = r" "1 \<le> k"
proof -
  have n: "n * 1024 \<le> len + 1023" "len \<le> n * 1024"
    unfolding assms(1)
    using div_times_less_eq_dividend [of "len + 1023" 1024]
      dividend_less_div_times [of 1024 "len + 1023"] by simp_all
  have r: "len \<le> r * 128"
    unfolding assms(2)
    using dividend_less_div_times [of 128 "len + 127"] by simp
  have k: "k * 16 \<le> N + 15" "N \<le> k * 16"
    unfolding assms(4)
    using div_times_less_eq_dividend [of "N + 15" 16]
      dividend_less_div_times [of 16 "N + 15"] by simp_all
  have N: "n \<le> N" "1 \<le> N" "N = n \<or> N = 1" using assms(3) by auto
  show a: "len \<le> N * 1024" using n(2) N(1) by simp
  show "len \<le> r * 128" by (rule r)
  have r8: "r \<le> N * 8" unfolding assms(2) using a by (rule records_le_blocks)
  then show "r * 128 \<le> N * 1024" by simp
  show k1: "1 \<le> k" using k(2) N(2) by simp
  then obtain k' where k': "k = Suc k'" by (cases k) auto
  have lo: "k' * 128 \<le> r"
  proof (cases "k' = 0")
    case True
    then show ?thesis by simp
  next
    case False
    then have "17 \<le> N" using k(1) by (simp add: k')
    then have "N = n" using N(3) by auto
    then have "16 * k' + 1 \<le> n" using k(1) by (simp add: k')
    then have "16384 * k' + 1024 \<le> n * 1024" by simp
    then have "16384 * k' < len" using n(1) by simp
    then have "(128 * k') * 128 < r * 128" using r by simp
    then show ?thesis by simp
  qed
  have hi: "r \<le> k' * 128 + 128" using r8 k(2) by (simp add: k')
  show "(k - 1) * 128 + min (r - (k - 1) * 128) 128 = r"
    using lo hi by (simp add: k')
qed

lemma concat_map_concat:
  "concat (map (\<lambda>j. concat (map f (g j))) js) = concat (map f (concat (map g js)))"
  by (induction js) auto

subsection \<open>Reading back what was added to the blank image\<close>

lemma blank_roundtrip:
  assumes "length d \<le> (TOTAL_BLOCKS - 2) * BLOCK_SIZE" "is_ascii filename"
  shows "extract_file (add_buffer create_disk filename d) (basename filename)
         = Inr (without_trailing_eof d)"
proof -
  let ?B = "add_buffer create_disk filename d"
  define N where "N = max (blocks_needed d) 1"
  define k where "k = (N + 15) div 16"
  define r where "r = records_of d"
  let ?alloc = "allocated create_disk d"
  let ?g = "\<lambda>j. slice ?alloc (16 * j) (16 * j + 16)"
  obtain name ext where ne: "pad_83 (upper (basename filename)) = (name, ext)"
    by (cases "pad_83 (upper (basename filename))")
  note len = length_create_disk
  have p1: "blocks_needed d = (length d + 1023) div 1024"
    by (simp add: blocks_needed_def geometry)
  have p2: "r = (length d + 127) div 128"
    by (simp add: r_def records_of_def geometry)
  note sz = sizes [OF p1 p2 N_def k_def]
  have bn: "blocks_needed d \<le> 245" using blocks_needed_le [OF assms(1)] by (simp add: geometry)
  have alloc: "?alloc = [2..<2 + N]" using allocated_blank [OF assms(1)] by (simp add: N_def)
  then have la: "length ?alloc = N" by (simp only: length_upt add_diff_cancel_left')
  have lg: "length (groups ?alloc 0 0) = k" by (simp add: length_groups la k_def)
  have k64: "k \<le> DIR_ENTRIES" using length_groups_allocated [of create_disk d] lg by (simp add: geometry)
  have cl: "claimed create_disk d = [0..<k]"
    using k64 by (simp add: claimed_def lg free_slots_create_disk take_upt)
  have clj: "claimed create_disk d ! j = j" "j < length (claimed create_disk d)" if "j < k" for j
    using that by (simp_all add: cl)
  have m: "filter (matches ?B (codepoints name) (codepoints ext)) [0..<DIR_ENTRIES] = [0..<k]"
  proof (rule filter_upt_prefix [OF k64])
    fix i assume "i < k"
    then show "matches ?B (codepoints name) (codepoints ext) i"
      using matches_claimed [OF len assms(2) ne, of i d] clj [of i] by simp
  next
    fix i assume i: "k \<le> i" "i < DIR_ENTRIES"
    then have "status ?B i = EMPTY_ENTRY"
      by (simp add: status_add_buffer [OF len] cl status_create_disk)
    then show "\<not> matches ?B (codepoints name) (codepoints ext) i"
      by (simp add: matches_def occupied_def)
  qed
  define found where "found = map (\<lambda>j. (j, min (r - j * 128) 128, ?g j)) [0..<k]"
  have f: "found = map (\<lambda>i. extent_of (entry_at ?B i))
      (filter (matches ?B (codepoints name) (codepoints ext)) [0..<DIR_ENTRIES])"
    unfolding m found_def
  proof (rule map_cong [OF refl])
    fix j assume "j \<in> set [0..<k]"
    then have "j < k" by simp
    then show "(j, min (r - j * 128) 128, ?g j) = extent_of (entry_at ?B j)"
      using extent_of_claimed [OF len, of j d filename] clj [of j] by (simp add: r_def)
  qed
  have ne0: "found \<noteq> []" "length found = k" using sz(5) by (auto simp: found_def)
  have "map fst found = [0..<k]" by (simp add: found_def comp_def map_idI)
  then have "sorted (map fst found)" by simp
  then have srt: "sort_key fst found = found" by (rule sort_key_id_if_sorted)
  have "last found = (\<lambda>j. (j, min (r - j * 128) 128, ?g j)) (last [0..<k])"
    unfolding found_def using sz(5) by (intro last_map) simp
  then have lst: "fst (snd (last found)) = min (r - (k - 1) * 128) 128"
    using sz(5) by simp
  have "read_blocks ?B found = concat (map (\<lambda>j. concat (map (block_at ?B) (?g j))) [0..<k])"
    by (simp add: read_blocks_eq found_def comp_def)
  also have "\<dots> = concat (map (block_at ?B) (concat (map ?g [0..<length (groups ?alloc 0 0)])))"
    by (simp only: concat_map_concat lg)
  also have "\<dots> = concat (map (chunk_of d) [0..<N])"
    by (simp only: concat_group_slices blocks_of_allocated [OF len] la)
  also have "\<dots> = d @ replicate (N * BLOCK_SIZE - length d) 0x1A"
    using sz(1) by (simp add: concat_chunks geometry)
  finally have rb: "read_blocks ?B found = d @ replicate (N * BLOCK_SIZE - length d) 0x1A" .
  have tot: "(length found - 1) * 128 + fst (snd (last found)) = r"
    by (simp only: ne0(2) lst sz(4))
  have "take (r * 128) (d @ replicate (N * 1024 - length d) 0x1A)
      = d @ replicate (r * 128 - length d) (0x1A::byte)"
    using sz(2,3) by (simp add: min_def)
  then have tk: "take (((length found - 1) * 128 + fst (snd (last found))) * SECTOR_SIZE)
        (read_blocks ?B found) = d @ replicate (r * 128 - length d) 0x1A"
    by (simp only: tot rb geometry)
  have "extract_file ?B (basename filename)
      = Inr (without_trailing_eof
          (take (((length found - 1) * 128 + fst (snd (last (sort_key fst found)))) * SECTOR_SIZE)
             (read_blocks ?B (sort_key fst found))))"
    using extract_file_eq [OF length_add_buffer [OF len] ne f] ne0(1) by (simp only: if_False)
  then show ?thesis
    by (simp only: srt tk without_trailing_eof_padded)
qed

section \<open>Round trip\<close>

lemma f_ext: "basename ''F.EXT'' = ''F.EXT''" "is_ascii ''F.EXT''"
  by (simp_all add: basename_def is_ascii_def)

text \<open>Claim C1: for every byte buffer \<open>d\<close> of at most (TOTAL\_BLOCKS - 2) * BLOCK\_SIZE
  = 250880 bytes, adding \<open>d\<close> as F.EXT to the blank image succeeds, and extracting F.EXT
  from the stored image returns exactly \<open>d\<close> without its trailing 0x1A bytes.\<close>

theorem store_retrieve_roundtrip:
  assumes "length d \<le> (TOTAL_BLOCKS - 2) * BLOCK_SIZE"
  shows "(TOTAL_BLOCKS - 2) * BLOCK_SIZE = 250880
    \<and> failure (add_file create_disk ''F.EXT'' d) = None
    \<and> extract_file (stored (add_file create_disk ''F.EXT'' d)) ''F.EXT''
        = Inr (without_trailing_eof d)"
  using add_blank [OF assms, of "''F.EXT''"] blank_roundtrip [OF assms f_ext(2)]
  by (simp add: f_ext(1) geometry)

theorem store_retrieve_roundtrip_witness:
  "length [0x48, 0x49, 0x1A, 0x1A :: byte] \<le> (TOTAL_BLOCKS - 2) * BLOCK_SIZE
   \<and> failure (add_file create_disk ''F.EXT'' [0x48, 0x49, 0x1A, 0x1A]) = None
   \<and> extract_file (stored (add_file create_disk ''F.EXT'' [0x48, 0x49, 0x1A, 0x1A])) ''F.EXT''
       = Inr [0x48, 0x49]"
  using store_retrieve_roundtrip [of "[0x48, 0x49, 0x1A, 0x1A]"]
  by (simp add: without_trailing_eof_def geometry)

section \<open>Adding an empty file\<close>









end
